theory Spec2Isabelle
  imports Complex_Main "HOL-Library.Sublist" "HOL-Library.Multiset" "HOL-Library.Log_Nat"
begin

section \<open>Strings and character classes\<close>

text \<open>
  A JavaScript string is a sequence of UTF-16 code units, and a regular expression
  without the \<open>u\<close> flag works on code units. A code unit is modelled by its number
  (an \<open>int\<close>, always in the range of 0 to 65535 in a real string).
  \<open>str\<close> turns a literal into the code units of its (ASCII) characters.
\<close>

type_synonym jsstring = "int list"

definition str :: "string \<Rightarrow> jsstring" where
  "str s = map of_char s"

text \<open>The class \<open>\s\<close>: WhiteSpace and LineTerminator of ECMAScript.\<close>

definition is_space :: "int \<Rightarrow> bool" where
  "is_space c \<longleftrightarrow>
     c = 9 \<or> c = 10 \<or> c = 11 \<or> c = 12 \<or> c = 13 \<or> c = 32 \<or> c = 160 \<or> c = 5760 \<or>
     (8192 \<le> c \<and> c \<le> 8202) \<or> c = 8232 \<or> c = 8233 \<or> c = 8239 \<or> c = 8287 \<or>
     c = 12288 \<or> c = 65279"

text \<open>The units \<open>.\<close> does not match: LF, CR, U+2028 and U+2029.\<close>

definition is_line_terminator :: "int \<Rightarrow> bool" where
  "is_line_terminator c \<longleftrightarrow> c = 10 \<or> c = 13 \<or> c = 8232 \<or> c = 8233"

definition is_digit :: "int \<Rightarrow> bool" where
  "is_digit c \<longleftrightarrow> 48 \<le> c \<and> c \<le> 57"

definition is_upper :: "int \<Rightarrow> bool" where
  "is_upper c \<longleftrightarrow> 65 \<le> c \<and> c \<le> 90"

text \<open>The class \<open>\w\<close>, which decides \<open>\b\<close>.\<close>

definition is_word :: "int \<Rightarrow> bool" where
  "is_word c \<longleftrightarrow> is_digit c \<or> is_upper c \<or> (97 \<le> c \<and> c \<le> 122) \<or> c = 95"

definition trimStart :: "jsstring \<Rightarrow> jsstring" where
  "trimStart s = dropWhile is_space s"

definition trimEnd :: "jsstring \<Rightarrow> jsstring" where
  "trimEnd s = rev (dropWhile is_space (rev s))"

definition trim :: "jsstring \<Rightarrow> jsstring" where
  "trim s = trimEnd (trimStart s)"

section \<open>The token pattern\<close>

definition TOKEN_NAMES :: "jsstring list" where
  "TOKEN_NAMES = map str [''STATUS'', ''LOG'', ''COMMENT'', ''PHASE'', ''DATE'', ''CAT'', ''READY'']"

text \<open>
  \<open>onlyOne\<close> and \<open>getToken\<close> build the same pattern
  \<^verbatim>\<open>(?:^|\s)NAME:\s*([^\s].*?)\s*(?=(?:\s(?:STATUS|LOG|COMMENT|PHASE|DATE|CAT|READY):|$))\<close>
  The functions below run it as a backtracking matcher does, piece by piece from the
  right: each takes the rest of the line at its position and tries its alternatives in
  the order of the pattern (a greedy star the longer match first, the lazy star the
  shorter first).
\<close>

text \<open>The lookahead \<^verbatim>\<open>(?=(?:\s(?:TOKEN_ALT):|$))\<close>.\<close>

fun boundary :: "jsstring \<Rightarrow> bool" where
  "boundary [] = True"
| "boundary (c # r) = (is_space c \<and> list_ex (\<lambda>n. prefix (n @ str '':'') r) TOKEN_NAMES)"

text \<open>
  \<^verbatim>\<open>\s*(?=...)\<close>, the end of the pattern: the number of units the greedy \<^verbatim>\<open>\s*\<close>
  takes, one more unit first and none as the fallback.
\<close>

fun trailing :: "jsstring \<Rightarrow> nat option" where
  "trailing [] = (if boundary [] then Some 0 else None)"
| "trailing (c # r) =
     (case (if is_space c then trailing r else None) of
        Some n \<Rightarrow> Some (Suc n)
      | None \<Rightarrow> if boundary (c # r) then Some 0 else None)"

text \<open>
  \<^verbatim>\<open>.*?\s*(?=...)\<close>: the lazy star first tries to stop, then takes one more unit that is
  not a line terminator. The result is what it took and what \<^verbatim>\<open>\s*\<close> took after it.
\<close>

fun lazy_tail :: "jsstring \<Rightarrow> (jsstring \<times> nat) option" where
  "lazy_tail [] = map_option (Pair []) (trailing [])"
| "lazy_tail (c # r) =
     (case trailing (c # r) of
        Some n \<Rightarrow> Some ([], n)
      | None \<Rightarrow>
          if is_line_terminator c then None
          else map_option (\<lambda>(v, n). (c # v, n)) (lazy_tail r))"

text \<open>\<^verbatim>\<open>([^\s].*?)\s*(?=...)\<close>: the group and the units after it.\<close>

fun capture :: "jsstring \<Rightarrow> (jsstring \<times> nat) option" where
  "capture [] = None"
| "capture (c # r) =
     (if is_space c then None else map_option (\<lambda>(v, n). (c # v, n)) (lazy_tail r))"

text \<open>
  \<^verbatim>\<open>\s*([^\s].*?)\s*(?=...)\<close>: what the first \<^verbatim>\<open>\s*\<close> took (greedy), the group, and
  what the last \<^verbatim>\<open>\s*\<close> took.
\<close>

fun value_part :: "jsstring \<Rightarrow> (nat \<times> jsstring \<times> nat) option" where
  "value_part [] = None"
| "value_part (c # r) =
     (case (if is_space c then value_part r else None) of
        Some (k, v, n) \<Rightarrow> Some (Suc k, v, n)
      | None \<Rightarrow> map_option (\<lambda>(v, n). (0, v, n)) (capture (c # r)))"

text \<open>\<^verbatim>\<open>NAME:\s*([^\s].*?)\s*(?=...)\<close>: the length of the match and the group.\<close>

definition after_name :: "jsstring \<Rightarrow> jsstring \<Rightarrow> (nat \<times> jsstring) option" where
  "after_name name s =
     (if prefix (name @ str '':'') s then
        map_option (\<lambda>(k, v, n). (length name + 1 + k + length v + n, v))
          (value_part (drop (length name + 1) s))
      else None)"

text \<open>
  The whole pattern at one index; \<open>at_start\<close> says that the index is 0, where \<^verbatim>\<open>^\<close>
  matches. The alternative \<^verbatim>\<open>^\<close> is tried before \<^verbatim>\<open>\s\<close>.
\<close>

definition match_here :: "jsstring \<Rightarrow> bool \<Rightarrow> jsstring \<Rightarrow> (nat \<times> jsstring) option" where
  "match_here name at_start s =
     (case (if at_start then after_name name s else None) of
        Some m \<Rightarrow> Some m
      | None \<Rightarrow>
          (case s of
             [] \<Rightarrow> None
           | c # r \<Rightarrow>
               if is_space c then map_option (\<lambda>(l, v). (Suc l, v)) (after_name name r)
               else None))"

text \<open>
  One run of the pattern from an index on: the leftmost index where it matches, as
  (units skipped, length of the match, group 1).
\<close>

fun re_exec :: "jsstring \<Rightarrow> bool \<Rightarrow> jsstring \<Rightarrow> (nat \<times> nat \<times> jsstring) option" where
  "re_exec name at_start [] = map_option (\<lambda>(l, v). (0, l, v)) (match_here name at_start [])"
| "re_exec name at_start (c # r) =
     (case match_here name at_start (c # r) of
        Some (l, v) \<Rightarrow> Some (0, l, v)
      | None \<Rightarrow> map_option (\<lambda>(i, l, v). (Suc i, l, v)) (re_exec name False r))"


subsection \<open>A match lies inside the line and is never empty\<close>

lemma trailing_length: "trailing s = Some n \<Longrightarrow> n \<le> length s"
  by (induction s arbitrary: n) (auto split: if_splits option.splits)

lemma lazy_tail_length: "lazy_tail s = Some (v, n) \<Longrightarrow> length v + n \<le> length s"
  by (induction s arbitrary: v n) (auto split: if_splits option.splits dest: trailing_length)

lemma capture_length: "capture s = Some (v, n) \<Longrightarrow> length v + n \<le> length s"
  by (cases s) (auto split: if_splits dest: lazy_tail_length)

lemma value_part_length:
  "value_part s = Some (k, v, n) \<Longrightarrow> k + length v + n \<le> length s"
proof (induction s arbitrary: k v n)
  case Nil
  then show ?case by simp
next
  case (Cons c r)
  show ?case
  proof (cases "if is_space c then value_part r else None")
    case None
    with Cons.prems obtain "capture (c # r) = Some (v, n)" and "k = 0"
      by (auto simp del: capture.simps)
    then show ?thesis using capture_length by fastforce
  next
    case (Some x)
    obtain k' v' n' where x: "x = (k', v', n')" by (cases x)
    from Some x have "value_part r = Some (k', v', n')" by (auto split: if_splits)
    from Cons.IH [OF this] Cons.prems Some x show ?thesis by (auto simp del: capture.simps)
  qed
qed

lemma after_name_length: "after_name name s = Some (l, v) \<Longrightarrow> 0 < l \<and> l \<le> length s"
  unfolding after_name_def
  by (auto split: if_splits dest!: value_part_length simp: prefix_def str_def)

lemma match_here_length: "match_here name b s = Some (l, v) \<Longrightarrow> 0 < l \<and> l \<le> length s"
  unfolding match_here_def
  by (auto split: if_splits option.splits list.splits dest: after_name_length)

lemma re_exec_length: "re_exec name b s = Some (i, l, v) \<Longrightarrow> 0 < l \<and> i + l \<le> length s"
  by (induction s arbitrary: b i l v) (auto split: option.splits dest: match_here_length)

subsection \<open>The two uses of the pattern\<close>

text \<open>\<open>getToken\<close>: \<^verbatim>\<open>m ? m[1].trim() : null\<close>, for the first match in the line.\<close>

definition getToken :: "jsstring \<Rightarrow> jsstring \<Rightarrow> jsstring option" where
  "getToken line name = map_option (\<lambda>(i, l, v). trim v) (re_exec name True line)"

text \<open>
  \<^verbatim>\<open>firstLine.match(re)\<close> with the flag \<open>g\<close>, from \<open>lastIndex\<close> on (\<open>s\<close> is the line
  from there, \<open>at_start\<close> says that \<open>lastIndex\<close> is 0): the text of every match in turn,
  the next search starting where the last match ended. A match of this pattern is never
  empty, so \<open>lastIndex\<close> always moves.
\<close>

function match_all :: "jsstring \<Rightarrow> bool \<Rightarrow> jsstring \<Rightarrow> jsstring list" where
  "match_all name at_start s =
     (case re_exec name at_start s of
        None \<Rightarrow> []
      | Some (i, l, v) \<Rightarrow> take l (drop i s) # match_all name False (drop (i + l) s))"
  by pat_completeness auto
termination
proof (relation "measure (\<lambda>(name, at_start, s). length s)")
  show "wf (measure (\<lambda>(name, at_start, s). length s))" by simp
next
  fix name :: jsstring and at_start :: bool and s :: jsstring and x2 i y l v
  assume "re_exec name at_start s = Some x2" "(i, y) = x2" "(l, v) = y"
  then have "re_exec name at_start s = Some (i, l, v)" by simp
  from re_exec_length [OF this]
  show "((name, False, drop (i + l) s), (name, at_start, s))
          \<in> measure (\<lambda>(name, at_start, s). length s)"
    by (simp; arith)
qed

declare match_all.simps [simp del]

section \<open>Numbers\<close>

text \<open>
  A JavaScript number is an IEEE 754 double. The parser makes no number below zero and no
  NaN, so a number is modelled as a double from zero up, written as the rational it is, or
  as positive infinity.
\<close>

datatype number = Finite rat | Infinity

definition pow2 :: "int \<Rightarrow> rat" where
  "pow2 k = (if 0 \<le> k then 2 ^ nat k else 1 / 2 ^ nat (- k))"

text \<open>
  The exponent of the power of two at or below a positive rational
  (\<open>floor_log2_bounds\<close> below): the lengths in bits of numerator and denominator give it
  up to one.
\<close>

definition floor_log2 :: "rat \<Rightarrow> int" where
  "floor_log2 q =
     (let k = bitlen (fst (quotient_of q)) - bitlen (snd (quotient_of q))
      in if pow2 k \<le> q then k else k - 1)"

text \<open>Rounding to the nearest whole number, a tie going to the even one.\<close>

definition round_half_even :: "rat \<Rightarrow> int" where
  "round_half_even x =
     (let f = \<lfloor>x\<rfloor>; d = x - of_int f
      in if d < 1 / 2 then f
         else if 1 / 2 < d then f + 1
         else if even f then f else f + 1)"

text \<open>
  The double nearest to a rational that is not below zero, a tie going to the even
  mantissa. A double has 53 bits of mantissa, so the unit in the last place of a number in
  \<open>[2\<^sup>l, 2\<^sup>l\<^sup>+\<^sup>1)\<close> is \<open>2\<^sup>l\<^sup>-\<^sup>5\<^sup>2\<close>, and never less than \<open>2\<^sup>-\<^sup>1\<^sup>0\<^sup>7\<^sup>4\<close>, the least
  positive double. The mantissa is at most \<open>2\<^sup>5\<^sup>3\<close>, so that only a number with a unit
  above 1 can reach \<open>2\<^sup>1\<^sup>0\<^sup>2\<^sup>4\<close>, where the rounded value is infinity.
\<close>

definition to_double :: "rat \<Rightarrow> number" where
  "to_double q =
     (if q \<le> 0 then Finite 0
      else
        (let e = max (floor_log2 q - 52) (- 1074);
             m = round_half_even (q / pow2 e)
         in if 0 < e \<and> 2 ^ 1024 \<le> m * 2 ^ nat e then Infinity
            else Finite (of_int m * pow2 e)))"

text \<open>\<open>x + y\<close>, \<open>x / c\<close> for a finite \<open>c\<close> above zero, \<open>x >= c\<close> and \<open>x > 0\<close> on these numbers.\<close>

definition number_plus :: "number \<Rightarrow> number \<Rightarrow> number" where
  "number_plus x y =
     (case x of
        Infinity \<Rightarrow> Infinity
      | Finite a \<Rightarrow> (case y of Infinity \<Rightarrow> Infinity | Finite b \<Rightarrow> to_double (a + b)))"

definition number_divide :: "number \<Rightarrow> rat \<Rightarrow> number" where
  "number_divide x c = (case x of Infinity \<Rightarrow> Infinity | Finite a \<Rightarrow> to_double (a / c))"

definition at_least :: "number \<Rightarrow> rat \<Rightarrow> bool" where
  "at_least x c = (case x of Infinity \<Rightarrow> True | Finite a \<Rightarrow> c \<le> a)"

definition greater_than_zero :: "number \<Rightarrow> bool" where
  "greater_than_zero x = (case x of Infinity \<Rightarrow> True | Finite a \<Rightarrow> 0 < a)"

lemma pow2_powi: "pow2 k = 2 powi k"
  by (simp add: pow2_def power_int_def inverse_eq_divide power_one_over)

lemma pow2_pos: "0 < pow2 k"
  by (simp add: pow2_powi)

lemma pow2_add: "pow2 (i + j) = pow2 i * pow2 j"
  by (simp add: pow2_powi power_int_add)

lemma pow2_nat: "pow2 (int n) = 2 ^ n"
  by (simp add: pow2_powi)

lemma pow2_mono: "i \<le> j \<Longrightarrow> pow2 i \<le> pow2 j"
  by (simp add: pow2_powi power_int_increasing)

lemma pow2_strict: "i < j \<Longrightarrow> pow2 i < pow2 j"
  by (simp add: pow2_powi power_int_strict_increasing)

lemma pow2_less_iff: "(pow2 i < pow2 j) = (i < j)"
proof
  assume "pow2 i < pow2 j"
  then show "i < j" using pow2_mono [of j i] by (cases "i < j") auto
next
  assume "i < j"
  then show "pow2 i < pow2 j" by (rule pow2_strict)
qed

lemma bitlen_pow2_bounds:
  assumes "0 < a"
  shows "pow2 (bitlen a - 1) \<le> of_int a \<and> of_int a < pow2 (bitlen a)"
proof -
  from bitlen_bounds [OF assms]
  have b: "2 ^ nat (bitlen a - 1) \<le> a" "a < 2 ^ nat (bitlen a)" by simp_all
  have p: "1 \<le> bitlen a" using assms by (simp add: bitlen_alt_def)
  have "(of_int (2 ^ nat (bitlen a - 1)) :: rat) \<le> of_int a"
    using b(1) by (simp only: of_int_le_iff)
  moreover have "(of_int a :: rat) < of_int (2 ^ nat (bitlen a))"
    using b(2) by (simp only: of_int_less_iff)
  ultimately show ?thesis
    using p by (simp add: pow2_def)
qed

text \<open>\<open>floor_log2\<close> is the exponent of the power of two at or below a positive rational.\<close>

lemma floor_log2_bounds:
  assumes "0 < q"
  shows "pow2 (floor_log2 q) \<le> q \<and> q < pow2 (floor_log2 q + 1)"
proof -
  obtain a b where ab: "quotient_of q = (a, b)" by (cases "quotient_of q")
  then have b: "0 < b" by (rule quotient_of_denom_pos)
  have q: "q = of_int a / of_int b" using ab by (rule quotient_of_div)
  with assms b have a: "0 < a" by (simp add: zero_less_divide_iff)
  define k where "k = bitlen a - bitlen b"
  note ba = bitlen_pow2_bounds [OF a] and bb = bitlen_pow2_bounds [OF b]
  have br: "(0::rat) < of_int b" using b by simp
  have lo: "pow2 (k - 1) \<le> q"
  proof -
    have "pow2 (k - 1) * of_int b \<le> pow2 (k - 1) * pow2 (bitlen b)"
      using bb pow2_pos [of "k - 1"] by (simp add: less_imp_le)
    also have "\<dots> = pow2 (bitlen a - 1)" by (simp add: pow2_add [symmetric] k_def)
    also have "\<dots> \<le> of_int a" using ba by simp
    finally show ?thesis using br by (simp add: q pos_le_divide_eq)
  qed
  have hi: "q < pow2 (k + 1)"
  proof -
    have "of_int a < pow2 (bitlen a)" using ba by simp
    also have "\<dots> = pow2 (k + 1) * pow2 (bitlen b - 1)"
      by (simp add: pow2_add [symmetric] k_def)
    also have "\<dots> \<le> pow2 (k + 1) * of_int b"
      using bb pow2_pos [of "k + 1"] by simp
    finally show ?thesis using br by (simp add: q pos_divide_less_eq)
  qed
  have f: "floor_log2 q = (if pow2 k \<le> q then k else k - 1)"
    by (simp add: floor_log2_def ab k_def Let_def)
  show ?thesis
  proof (cases "pow2 k \<le> q")
    case True
    with hi f show ?thesis by simp
  next
    case False
    with lo f show ?thesis by simp
  qed
qed

lemma round_half_even_int: "round_half_even (of_int z) = z"
  by (simp add: round_half_even_def)

text \<open>A whole number below \<open>2\<^sup>5\<^sup>3\<close> is a double.\<close>

lemma to_double_nat:
  assumes "n < 2 ^ 53"
  shows "to_double (of_nat n) = Finite (of_nat n)"
proof (cases "n = 0")
  case True
  then show ?thesis by (simp add: to_double_def)
next
  case False
  define q :: rat where "q = of_nat n"
  have qpos: "0 < q" using False by (simp add: q_def)
  define l where "l = floor_log2 q"
  note b = floor_log2_bounds [OF qpos, folded l_def]
  have "1 \<le> q" using False by (simp add: q_def)
  with b have "pow2 0 < pow2 (l + 1)" by (simp add: pow2_def)
  then have l0: "0 \<le> l" by (simp add: pow2_less_iff)
  have "q < 2 ^ 53" using assms unfolding q_def by (metis of_nat_less_iff of_nat_numeral of_nat_power)
  with b have "pow2 l < pow2 53" by (simp add: pow2_def)
  then have l52: "l \<le> 52" by (simp add: pow2_less_iff)
  define e where "e = l - 52"
  have e: "max (floor_log2 q - 52) (- 1074) = e" "e \<le> 0"
    using l0 l52 by (simp_all add: e_def l_def [symmetric])
  have pe: "pow2 e = 1 / 2 ^ nat (- e)"
    using e(2) by (cases "e = 0") (simp_all add: pow2_def)
  have "q / pow2 e = of_int (int n * 2 ^ nat (- e))"
    by (simp add: pe q_def)
  then have m: "round_half_even (q / pow2 e) = int n * 2 ^ nat (- e)"
    by (simp only: round_half_even_int)
  have "of_int (int n * 2 ^ nat (- e)) * pow2 e = q"
    by (simp add: pe q_def)
  then show ?thesis
    using qpos e m unfolding to_double_def q_def [symmetric] Let_def
    by simp
qed

lemma round_half_even_near: "\<bar>x - of_int (round_half_even x)\<bar> \<le> 1 / 2"
proof -
  have "of_int \<lfloor>x\<rfloor> \<le> x" "x < of_int \<lfloor>x\<rfloor> + 1" by linarith+
  then show ?thesis by (auto simp: round_half_even_def Let_def abs_le_iff)
qed

text \<open>
  \<open>to_double\<close> is within half a unit in the last place of its argument, and gives the
  doubles JavaScript gives: 0.1, \<open>2\<^sup>5\<^sup>3 + 1\<close> (a tie, which goes down to the even mantissa)
  and 2.5.
\<close>

lemma to_double_near:
  assumes "0 < q" and "to_double q = Finite d"
  shows "\<bar>q - d\<bar> \<le> pow2 (max (floor_log2 q - 52) (- 1074)) / 2"
proof -
  define e where "e = max (floor_log2 q - 52) (- 1074)"
  define m where "m = round_half_even (q / pow2 e)"
  have d: "d = of_int m * pow2 e"
    using assms by (simp add: to_double_def Let_def e_def m_def split: if_splits)
  have p: "0 < pow2 e" by (rule pow2_pos)
  have "\<bar>q / pow2 e - of_int m\<bar> \<le> 1 / 2"
    unfolding m_def by (rule round_half_even_near)
  then have "\<bar>q / pow2 e - of_int m\<bar> * pow2 e \<le> 1 / 2 * pow2 e"
    using p by (simp only: mult_le_cancel_right_pos)
  moreover have "\<bar>q / pow2 e - of_int m\<bar> * pow2 e = \<bar>q - of_int m * pow2 e\<bar>"
  proof -
    have "\<bar>q / pow2 e - of_int m\<bar> * pow2 e = \<bar>(q / pow2 e - of_int m) * pow2 e\<bar>"
      using p by (simp add: abs_mult)
    also have "(q / pow2 e - of_int m) * pow2 e = q - of_int m * pow2 e"
      using p by (simp add: field_simps)
    finally show ?thesis .
  qed
  ultimately show ?thesis by (simp add: d e_def)
qed

lemma to_double_examples:
  "to_double (1 / 10) = Finite (3602879701896397 / 36028797018963968)"
  "to_double 9007199254740993 = Finite 9007199254740992"
  "to_double (5 / 2) = Finite (5 / 2)"
  by code_simp+

section \<open>Errors and the result\<close>

text \<open>
  The parser throws \<open>Error\<close> objects that differ in their message only. A format error
  is one whose message \<open>failFormat\<close> built; the calendar error is the one thrown without
  that prefix.
\<close>

datatype error = Error jsstring

definition FormatError :: "jsstring \<Rightarrow> error" where
  "FormatError msg = Error (str ''Super Commit format: '' @ msg)"

definition CalendarError :: error where
  "CalendarError = Error (str ''LOG date must be a valid calendar date (yyyy-mm-dd).'')"

definition failFormat :: "jsstring \<Rightarrow> error + 'a" where
  "failFormat msg = Inl (FormatError msg)"

text \<open>The result; \<open>logHours\<close> is a JavaScript number.\<close>

record parsed =
  issue :: jsstring
  issueKey :: jsstring
  status :: "jsstring option"
  logHours :: "number option"
  logDate :: "jsstring option"
  comment :: "jsstring option"
  phase :: "jsstring option"
  ready :: "bool option"
  firstLine :: jsstring

section \<open>The helpers of the parser\<close>

text \<open>\<^verbatim>\<open>split(/\r?\n/)[0]\<close>: the line up to the first LF, or CR LF.\<close>

fun first_line :: "jsstring \<Rightarrow> jsstring" where
  "first_line [] = []"
| "first_line (c # r) =
     (if c = 10 then []
      else if c = 13 \<and> (case r of [] \<Rightarrow> False | d # _ \<Rightarrow> d = 10) then []
      else c # first_line r)"

definition sanitizeFirstLine :: "jsstring \<Rightarrow> jsstring" where
  "sanitizeFirstLine message =
     (let rawFirst = first_line message;
          noBom = (case rawFirst of [] \<Rightarrow> [] | c # r \<Rightarrow> if c = 65279 then r else c # r);
          noZw = dropWhile (\<lambda>c. c = 8203 \<or> c = 8204 \<or> c = 8205) noBom
      in trimEnd (dropWhile is_space noZw))"

text \<open>
  \<open>toLowerCase\<close> on the ASCII letters. The only code units outside ASCII whose lower case
  holds an ASCII letter are U+0130 (an i) and U+212A (a k), and neither letter is in a word
  \<open>parseReady\<close> compares with: the comparisons below come out as in JavaScript.
\<close>

definition toLowerCase :: "jsstring \<Rightarrow> jsstring" where
  "toLowerCase s = map (\<lambda>c. if is_upper c then c + 32 else c) s"

definition parseReady :: "jsstring option \<Rightarrow> bool option" where
  "parseReady val =
     (case val of
        None \<Rightarrow> None
      | Some v \<Rightarrow>
          (let s = toLowerCase (trim v) in
           if s \<in> set (map str [''y'', ''yes'', ''true'', ''1'']) then Some True
           else if s \<in> set (map str [''n'', ''no'', ''false'', ''0'']) then Some False
           else None))"

definition onlyOne :: "jsstring \<Rightarrow> jsstring \<Rightarrow> error + unit" where
  "onlyOne line name =
     (let hits = match_all name True line in
      if length hits > 1 then failFormat (str ''only one '' @ name @ str '' token is allowed.'')
      else Inr ())"

text \<open>\<open>forEach\<close> with a callback that may throw: the first throw ends the loop.\<close>

fun forEach :: "('a \<Rightarrow> error + unit) \<Rightarrow> 'a list \<Rightarrow> error + unit" where
  "forEach f [] = Inr ()"
| "forEach f (x # xs) = (case f x of Inl e \<Rightarrow> Inl e | Inr u \<Rightarrow> forEach f xs)"

definition tidy :: "jsstring option \<Rightarrow> jsstring option" where
  "tidy v = (case v of None \<Rightarrow> None | Some s \<Rightarrow> if trim s \<noteq> [] then Some (trim s) else None)"

text \<open>
  \<^verbatim>\<open>/^([A-Z][A-Z0-9]{1,9}-\d+)\b/\<close>: group 1. The hyphen is in neither class and a digit
  is a word character, so both greedy quantifiers can only match with their whole run.
\<close>

definition keyMatch :: "jsstring \<Rightarrow> jsstring option" where
  "keyMatch s =
     (case s of
        [] \<Rightarrow> None
      | c # r \<Rightarrow>
          (let body = takeWhile (\<lambda>x. is_upper x \<or> is_digit x) r;
               r1 = dropWhile (\<lambda>x. is_upper x \<or> is_digit x) r
           in if \<not> is_upper c \<or> length body < 1 \<or> 9 < length body then None
              else (case r1 of
                      [] \<Rightarrow> None
                    | h # r2 \<Rightarrow>
                        (let ds = takeWhile is_digit r2; r3 = dropWhile is_digit r2
                         in if h \<noteq> 45 \<or> ds = [] then None
                            else (case r3 of
                                    [] \<Rightarrow> Some (c # body @ h # ds)
                                  | w # _ \<Rightarrow> if is_word w then None
                                             else Some (c # body @ h # ds))))))"

section \<open>Dates\<close>

text \<open>
  \<open>Date.UTC\<close> and the getters of \<open>Date\<close> belong to the language, not to the repository:
  they are written here after the ECMAScript specification (section "Date Objects"),
  with its names. A time value is a number of milliseconds since 1970, or NaN (\<open>None\<close>).
\<close>

definition msPerDay :: int where
  "msPerDay = 86400000"

definition Day :: "int \<Rightarrow> int" where
  "Day t = t div msPerDay"

definition DaysInYear :: "int \<Rightarrow> int" where
  "DaysInYear y =
     (if y mod 4 \<noteq> 0 then 365
      else if y mod 100 \<noteq> 0 then 366
      else if y mod 400 \<noteq> 0 then 365
      else 366)"

definition DayFromYear :: "int \<Rightarrow> int" where
  "DayFromYear y =
     365 * (y - 1970) + (y - 1969) div 4 - (y - 1901) div 100 + (y - 1601) div 400"

lemma div_succ:
  fixes x n :: int
  assumes "0 < n"
  shows "(x + 1) div n = x div n + (if n dvd x + 1 then 1 else 0)"
proof (cases "n dvd x + 1")
  case True
  then obtain q where q: "x + 1 = n * q" by (auto simp: dvd_def)
  have "x = n * (q - 1) + (n - 1)" using q by (simp add: algebra_simps)
  then have "x div n = q - 1" by (rule int_div_pos_eq) (use assms in auto)
  moreover have "(x + 1) div n = q" using q assms by simp
  ultimately show ?thesis using True by simp
next
  case False
  let ?r = "(x + 1) mod n"
  have "?r \<noteq> 0" using False by (simp add: mod_eq_0_iff_dvd)
  moreover have "0 \<le> ?r" "?r < n" using assms by simp_all
  ultimately have r: "0 \<le> ?r - 1" "?r - 1 < n" by simp_all
  have "x = n * ((x + 1) div n) + (?r - 1)"
    using mult_div_mod_eq [of n "x + 1"] by linarith
  then have "x div n = (x + 1) div n" using r by (rule int_div_pos_eq)
  with False show ?thesis by simp
qed

lemma dvd_shift: "n dvd c \<Longrightarrow> (n dvd y - c) = (n dvd (y::int))"
  by (metis dvd_diff diff_add_cancel dvd_add)

lemma DayFromYear_step: "DayFromYear (y + 1) = DayFromYear y + DaysInYear y"
proof -
  have a: "(y + 1 - 1969) div 4 = (y - 1969) div 4 + (if 4 dvd y then 1 else 0)"
    using div_succ [of 4 "y - 1969"] dvd_shift [of 4 1968 y] by (simp add: algebra_simps)
  have b: "(y + 1 - 1901) div 100 = (y - 1901) div 100 + (if 100 dvd y then 1 else 0)"
    using div_succ [of 100 "y - 1901"] dvd_shift [of 100 1900 y] by (simp add: algebra_simps)
  have c: "(y + 1 - 1601) div 400 = (y - 1601) div 400 + (if 400 dvd y then 1 else 0)"
    using div_succ [of 400 "y - 1601"] dvd_shift [of 400 1600 y] by (simp add: algebra_simps)
  have d: "400 dvd y \<Longrightarrow> 100 dvd y" "100 dvd y \<Longrightarrow> 4 dvd y"
    by (erule dvd_trans [rotated], simp)+
  show ?thesis
    unfolding DayFromYear_def DaysInYear_def a b c
    using d by (auto simp: mod_eq_0_iff_dvd)
qed

lemma DayFromYear_less: "DayFromYear (y - 1) < DayFromYear y"
  using DayFromYear_step [of "y - 1"] by (simp add: DaysInYear_def split: if_splits)

text \<open>
  The specification defines \<open>YearFromTime(t)\<close> as the largest year \<open>y\<close> with
  \<open>TimeFromYear(y) \<le> t\<close>. \<open>year_down\<close> finds it by walking down from a year that is not
  before it (\<open>YearFromTime_largest\<close> below).
\<close>

function year_down :: "int \<Rightarrow> int \<Rightarrow> int" where
  "year_down d y = (if DayFromYear y \<le> d then y else year_down d (y - 1))"
  by pat_completeness auto
termination
proof (relation "measure (\<lambda>(d, y). nat (DayFromYear y - d))")
  show "wf (measure (\<lambda>(d, y). nat (DayFromYear y - d)))" by simp
next
  fix d y :: int
  assume "\<not> DayFromYear y \<le> d"
  then show "((d, y - 1), (d, y)) \<in> measure (\<lambda>(d, y). nat (DayFromYear y - d))"
    using DayFromYear_less [of y] by simp
qed

declare year_down.simps [simp del]

definition YearFromTime :: "int \<Rightarrow> int" where
  "YearFromTime t = year_down (Day t) (if 0 \<le> Day t then 1970 + Day t div 365 else 1969)"

definition InLeapYear :: "int \<Rightarrow> int" where
  "InLeapYear t = (if DaysInYear (YearFromTime t) = 366 then 1 else 0)"

definition DayWithinYear :: "int \<Rightarrow> int" where
  "DayWithinYear t = Day t - DayFromYear (YearFromTime t)"

definition MonthFromTime :: "int \<Rightarrow> int" where
  "MonthFromTime t =
     (let d = DayWithinYear t; l = InLeapYear t in
      if 0 \<le> d \<and> d < 31 then 0
      else if 31 \<le> d \<and> d < 59 + l then 1
      else if 59 + l \<le> d \<and> d < 90 + l then 2
      else if 90 + l \<le> d \<and> d < 120 + l then 3
      else if 120 + l \<le> d \<and> d < 151 + l then 4
      else if 151 + l \<le> d \<and> d < 181 + l then 5
      else if 181 + l \<le> d \<and> d < 212 + l then 6
      else if 212 + l \<le> d \<and> d < 243 + l then 7
      else if 243 + l \<le> d \<and> d < 273 + l then 8
      else if 273 + l \<le> d \<and> d < 304 + l then 9
      else if 304 + l \<le> d \<and> d < 334 + l then 10
      else 11)"

definition DateFromTime :: "int \<Rightarrow> int" where
  "DateFromTime t =
     (let d = DayWithinYear t; l = InLeapYear t; m = MonthFromTime t in
      if m = 0 then d + 1
      else if m = 1 then d - 30
      else if m = 2 then d - 58 - l
      else if m = 3 then d - 89 - l
      else if m = 4 then d - 119 - l
      else if m = 5 then d - 150 - l
      else if m = 6 then d - 180 - l
      else if m = 7 then d - 211 - l
      else if m = 8 then d - 242 - l
      else if m = 9 then d - 272 - l
      else if m = 10 then d - 303 - l
      else d - 333 - l)"

text \<open>
  \<open>MakeDay(year, month, date)\<close>: the day number of the first of the month, found from
  \<open>DayFromYear\<close> and the days before the month in that year, plus \<open>date - 1\<close>.
\<close>

definition days_before_month :: "int \<Rightarrow> int \<Rightarrow> int" where
  "days_before_month l mn =
     (if mn = 0 then 0
      else if mn = 1 then 31
      else if mn = 2 then 59 + l
      else if mn = 3 then 90 + l
      else if mn = 4 then 120 + l
      else if mn = 5 then 151 + l
      else if mn = 6 then 181 + l
      else if mn = 7 then 212 + l
      else if mn = 8 then 243 + l
      else if mn = 9 then 273 + l
      else if mn = 10 then 304 + l
      else 334 + l)"

definition MakeDay :: "int \<Rightarrow> int \<Rightarrow> int \<Rightarrow> int" where
  "MakeDay year month date =
     (let ym = year + month div 12; mn = month mod 12;
          l = (if DaysInYear ym = 366 then 1 else 0)
      in DayFromYear ym + days_before_month l mn + date - 1)"

definition TimeClip :: "int \<Rightarrow> int option" where
  "TimeClip t = (if 8640000000000000 < \<bar>t\<bar> then None else Some t)"

text \<open>\<open>Date.UTC(year, month, date)\<close>; a year from 0 to 99 means 1900 + year.\<close>

definition Date_UTC :: "int \<Rightarrow> int \<Rightarrow> int \<Rightarrow> int option" where
  "Date_UTC y m dt =
     (let yr = (if 0 \<le> y \<and> y \<le> 99 then 1900 + y else y)
      in TimeClip (MakeDay yr m dt * msPerDay))"

text \<open>
  The whole number a string of decimal digits writes. Unary \<open>+\<close> on the two or four digits
  of a date gives this number itself, as it is a double.
\<close>

definition digits_value :: "jsstring \<Rightarrow> nat" where
  "digits_value ds = foldl (\<lambda>a c. 10 * a + nat (c - 48)) 0 ds"

text \<open>\<^verbatim>\<open>/^(\d{4})-(\d{2})-(\d{2})$/\<close>: the three groups.\<close>

fun re_date :: "jsstring \<Rightarrow> (jsstring \<times> jsstring \<times> jsstring) option" where
  "re_date [y1, y2, y3, y4, h1, m1, m2, h2, d1, d2] =
     (if list_all is_digit [y1, y2, y3, y4, m1, m2, d1, d2] \<and> h1 = 45 \<and> h2 = 45
      then Some ([y1, y2, y3, y4], [m1, m2], [d1, d2]) else None)"
| "re_date s = None"

definition isValidISODate :: "jsstring \<Rightarrow> bool" where
  "isValidISODate s =
     (case re_date s of
        None \<Rightarrow> False
      | Some (ys, ms, ds) \<Rightarrow>
          (let y = int (digits_value ys); mo = int (digits_value ms); d = int (digits_value ds);
               dt = Date_UTC y (mo - 1) d
           in map_option YearFromTime dt = Some y \<and>
              map_option MonthFromTime dt = Some (mo - 1) \<and>
              map_option DateFromTime dt = Some d))"

text \<open>
  The date check, which the source writes out three times (for the date after \<open>@\<close>, for
  the \<open>DATE\<close> token beside a \<open>LOG\<close> token and for the \<open>DATE\<close> token alone): the pattern,
  then the calendar.
\<close>

definition checkDate :: "jsstring \<Rightarrow> error + jsstring" where
  "checkDate d =
     (if re_date d = None then failFormat (str ''date must be yyyy-mm-dd.'')
      else if \<not> isValidISODate d then Inl CalendarError
      else Inr d)"

section \<open>The LOG token\<close>

text \<open>
  \<^verbatim>\<open>/^(\d+(?:\.\d+)?)h$/i\<close>: the digits before the point and those after it (none when
  the group did not take part). With the flag \<open>i\<close> and without \<open>u\<close>, \<open>h\<close> matches the two
  ASCII letters only.
\<close>

definition re_hours :: "jsstring \<Rightarrow> (jsstring \<times> jsstring) option" where
  "re_hours s =
     (let ds = takeWhile is_digit s; r = dropWhile is_digit s
      in if ds = [] then None
         else (case r of
                 [] \<Rightarrow> None
               | c # r1 \<Rightarrow>
                   if c = 104 \<or> c = 72 then (if r1 = [] then Some (ds, []) else None)
                   else if c = 46 then
                     (let fs = takeWhile is_digit r1; r2 = dropWhile is_digit r1
                      in if fs \<noteq> [] \<and> (r2 = [104] \<or> r2 = [72]) then Some (ds, fs) else None)
                   else None))"

text \<open>\<^verbatim>\<open>/^(\d+):(\d{1,2})$/\<close>: the two groups.\<close>

definition re_hmm :: "jsstring \<Rightarrow> (jsstring \<times> jsstring) option" where
  "re_hmm s =
     (let hs = takeWhile is_digit s; r = dropWhile is_digit s
      in if hs = [] then None
         else (case r of
                 [] \<Rightarrow> None
               | c # ms \<Rightarrow>
                   if c = 58 \<and> list_all is_digit ms \<and> 1 \<le> length ms \<and> length ms \<le> 2
                   then Some (hs, ms) else None))"

text \<open>\<^verbatim>\<open>/^(\d+)m$/i\<close>: the group.\<close>

definition re_minutes :: "jsstring \<Rightarrow> jsstring option" where
  "re_minutes s =
     (let ds = takeWhile is_digit s; r = dropWhile is_digit s
      in if ds \<noteq> [] \<and> (r = [109] \<or> r = [77]) then Some ds else None)"

text \<open>
  \<open>parseFloat\<close> of digits, a point and digits (or of digits alone), and \<open>parseInt\<close> of
  digits: the double nearest to the number written, as V8 computes it (the language lets an
  engine drop the digits after the twentieth significant one).
\<close>

definition parseFloat :: "jsstring \<Rightarrow> jsstring \<Rightarrow> number" where
  "parseFloat ds fs =
     to_double (of_nat (digits_value ds) + of_nat (digits_value fs) / 10 ^ length fs)"

definition parseInt :: "jsstring \<Rightarrow> number" where
  "parseInt ds = to_double (of_nat (digits_value ds))"

text \<open>\<^verbatim>\<open>if (!(logHours > 0)) failFormat(...)\<close>\<close>

definition positiveHours :: "number \<Rightarrow> error + number" where
  "positiveHours hours =
     (if \<not> greater_than_zero hours
      then failFormat (str ''LOG hours must be a positive number.'')
      else Inr hours)"

text \<open>The three forms of the time part, in the source's order, and the sign check.\<close>

definition logTime :: "jsstring \<Rightarrow> error + number" where
  "logTime timePart =
     (case
        (case re_hours timePart of
           Some (ds, fs) \<Rightarrow> Inr (parseFloat ds fs)
         | None \<Rightarrow>
             (case re_hmm timePart of
                Some (hs, ms) \<Rightarrow>
                  (let h = parseInt hs; mins = parseInt ms
                   in if at_least mins 60
                      then failFormat (str ''LOG minutes must be < 60 for h:mm.'')
                      else Inr (number_plus h (number_divide mins 60)))
              | None \<Rightarrow>
                  (case re_minutes timePart of
                     Some ms \<Rightarrow> (let minutes = parseInt ms in Inr (number_divide minutes 60))
                   | None \<Rightarrow> failFormat (str ''LOG must be 2h@YYYY-MM-DD, 1.5h, 1:30, or 90m.''))))
      of
        Inl e \<Rightarrow> Inl e
      | Inr hours \<Rightarrow> positiveHours hours)"

text \<open>A string or null as a condition: null and the empty string count as false.\<close>

definition truthy :: "jsstring option \<Rightarrow> bool" where
  "truthy v = (case v of None \<Rightarrow> False | Some s \<Rightarrow> s \<noteq> [])"

text \<open>
  \<open>timePart\<close> and \<open>datePart\<close> of the LOG value: split at the first \<open>@\<close> when there is
  one, the date trimmed.
\<close>

definition timePart :: "jsstring \<Rightarrow> jsstring" where
  "timePart rawLog = takeWhile (\<lambda>c. c \<noteq> 64) rawLog"

definition datePart :: "jsstring \<Rightarrow> jsstring option" where
  "datePart rawLog =
     (case dropWhile (\<lambda>c. c \<noteq> 64) rawLog of [] \<Rightarrow> None | c # r \<Rightarrow> Some (trim r))"

text \<open>
  The part of \<open>parseCommitMessage\<close> from \<open>rawLog\<close> on: \<open>logHours\<close> and \<open>logDate\<close>, or the
  first error.
\<close>

definition parseLog :: "jsstring option \<Rightarrow> jsstring option \<Rightarrow> error + (number option \<times> jsstring option)" where
  "parseLog rawLog dateToken =
     (if truthy rawLog then
        (case rawLog of
           None \<Rightarrow> Inr (None, None)
         | Some raw \<Rightarrow>
             (case logTime (timePart raw) of
                Inl e \<Rightarrow> Inl e
              | Inr hours \<Rightarrow>
                  if truthy (datePart raw) then
                    (case checkDate (case datePart raw of None \<Rightarrow> [] | Some d \<Rightarrow> d) of
                       Inl e \<Rightarrow> Inl e
                     | Inr d \<Rightarrow> Inr (Some hours, Some d))
                  else if truthy dateToken then
                    (case checkDate (case dateToken of None \<Rightarrow> [] | Some d \<Rightarrow> d) of
                       Inl e \<Rightarrow> Inl e
                     | Inr d \<Rightarrow> Inr (Some hours, Some d))
                  else Inr (Some hours, None)))
      else if truthy dateToken then
        (case checkDate (case dateToken of None \<Rightarrow> [] | Some d \<Rightarrow> d) of
           Inl e \<Rightarrow> Inl e
         | Inr d \<Rightarrow> Inr (None, Some d))
      else Inr (None, None))"

section \<open>The parser\<close>

text \<open>
  The argument is a string: a caller that passes anything else gets the error of the
  empty message, and the type leaves that case out.
\<close>

definition parseCommitMessage :: "jsstring \<Rightarrow> error + parsed" where
  "parseCommitMessage message =
     (if trim message = [] then Inl (Error (str ''Super Commit format: commit message is empty.''))
      else
        (let line = sanitizeFirstLine message in
         case keyMatch line of
           None \<Rightarrow> failFormat (str ''missing or invalid JIRA issue key at start (e.g., ABC-123).'')
         | Some key \<Rightarrow>
             (case forEach (onlyOne line) TOKEN_NAMES of
                Inl e \<Rightarrow> Inl e
              | Inr u \<Rightarrow>
                  (let status = tidy (getToken line (str ''STATUS''));
                       comment = tidy (getToken line (str ''COMMENT''));
                       phase0 = tidy (getToken line (str ''PHASE''));
                       catAlias = tidy (getToken line (str ''CAT''));
                       phase = (if \<not> truthy phase0 \<and> truthy catAlias then catAlias else phase0);
                       dateToken = tidy (getToken line (str ''DATE''));
                       readyToken = tidy (getToken line (str ''READY''));
                       ready = parseReady readyToken;
                       rawLog = tidy (getToken line (str ''LOG''))
                   in case parseLog rawLog dateToken of
                        Inl e \<Rightarrow> Inl e
                      | Inr (hours, date) \<Rightarrow>
                          if (case status of None \<Rightarrow> False | Some s \<Rightarrow> trim s = [])
                          then failFormat (str ''STATUS value cannot be empty.'')
                          else Inr \<lparr>issue = key, issueKey = key, status = status,
                                    logHours = hours, logDate = date, comment = comment,
                                    phase = phase, ready = ready, firstLine = line\<rparr>))))"

section \<open>The forms of the LOG duration\<close>

text \<open>A non-empty string of decimal digits.\<close>

definition all_digits :: "jsstring \<Rightarrow> bool" where
  "all_digits ds \<longleftrightarrow> ds \<noteq> [] \<and> list_all is_digit ds"

lemma span_digits:
  "all_digits ds \<Longrightarrow> \<not> is_digit x \<Longrightarrow>
     takeWhile is_digit (ds @ x # r) = ds \<and> dropWhile is_digit (ds @ x # r) = x # r"
  by (simp add: all_digits_def list_all_iff takeWhile_append2 dropWhile_append2)

lemma minutes_value:
  assumes "all_digits ms" and "length ms \<le> 2"
  shows "parseInt ms = Finite (of_nat (digits_value ms))"
proof -
  have d: "nat (c - 48) \<le> 9" if "is_digit c" for c
    using that by (simp add: is_digit_def nat_le_iff)
  consider a where "ms = [a]" "is_digit a" | a b where "ms = [a, b]" "is_digit a" "is_digit b"
    using assms by (cases ms rule: list.exhaust; cases "tl ms") (auto simp: all_digits_def)
  then have "digits_value ms \<le> 99"
  proof cases
    case 1
    then show ?thesis using d [of a] by (simp add: digits_value_def)
  next
    case 2
    then show ?thesis using d [of a] d [of b] by (simp add: digits_value_def)
  qed
  then have "digits_value ms < 2 ^ 53" by simp
  then show ?thesis unfolding parseInt_def by (rule to_double_nat)
qed

lemma logTime_hours:
  assumes "all_digits ds"
  shows "logTime (ds @ str ''h'') = positiveHours (to_double (of_nat (digits_value ds)))"
  using assms span_digits [OF assms, of 104 "[]"]
  by (simp add: logTime_def re_hours_def parseFloat_def str_def is_digit_def
      all_digits_def digits_value_def)

lemma logTime_decimal:
  assumes "all_digits ds" "all_digits fs"
  shows "logTime (ds @ str ''.'' @ fs @ str ''h'') =
           positiveHours
             (to_double (of_nat (digits_value ds) + of_nat (digits_value fs) / 10 ^ length fs))"
  using assms span_digits [OF assms(1), of 46 "fs @ [104]"] span_digits [OF assms(2), of 104 "[]"]
  by (simp add: logTime_def re_hours_def parseFloat_def str_def is_digit_def all_digits_def)

lemma logTime_hmm:
  assumes "all_digits hs" "all_digits ms" "length ms \<le> 2"
  shows "logTime (hs @ str '':'' @ ms) =
           (if 60 \<le> digits_value ms then failFormat (str ''LOG minutes must be < 60 for h:mm.'')
            else positiveHours
                   (number_plus (to_double (of_nat (digits_value hs)))
                      (to_double (of_nat (digits_value ms) / 60))))"
proof -
  have ms: "1 \<le> length ms" using assms(2) by (cases ms) (simp_all add: all_digits_def)
  have nh: "re_hours (hs @ str '':'' @ ms) = None"
    using span_digits [OF assms(1), of 58 ms]
    by (simp add: re_hours_def str_def is_digit_def)
  have "re_hmm (hs @ str '':'' @ ms) = Some (hs, ms)"
    using span_digits [OF assms(1), of 58 ms] assms ms
    by (simp add: re_hmm_def str_def is_digit_def all_digits_def)
  moreover have "parseInt hs = to_double (of_nat (digits_value hs))"
    by (simp add: parseInt_def)
  ultimately show ?thesis
    using nh
    by (simp add: logTime_def failFormat_def minutes_value [OF assms(2,3)] at_least_def
        number_divide_def)
qed

lemma logTime_minutes:
  assumes "all_digits ds"
  shows "logTime (ds @ str ''m'') =
           positiveHours (number_divide (to_double (of_nat (digits_value ds))) 60)"
proof -
  have s: "takeWhile is_digit (ds @ [109]) = ds" "dropWhile is_digit (ds @ [109]) = [109]"
    using span_digits [OF assms, of 109 "[]"] by (simp_all add: is_digit_def)
  have "re_hours (ds @ str ''m'') = None"
    using s assms by (simp add: re_hours_def str_def all_digits_def)
  moreover have "re_hmm (ds @ str ''m'') = None"
    using s assms by (simp add: re_hmm_def str_def all_digits_def)
  moreover have "re_minutes (ds @ str ''m'') = Some ds"
    using s assms by (simp add: re_minutes_def str_def all_digits_def)
  ultimately show ?thesis
    by (simp add: logTime_def parseInt_def)
qed

lemma log_examples:
  "map_sum id logHours (parseCommitMessage (str ''ABC-1 LOG:90m'')) = Inr (Some (Finite (3 / 2)))"
  "map_sum id logHours (parseCommitMessage (str ''ABC-1 LOG:1:30'')) = Inr (Some (Finite (3 / 2)))"
  "map_sum id logHours (parseCommitMessage (str ''ABC-1 LOG:1.5h'')) = Inr (Some (Finite (3 / 2)))"
  "parseCommitMessage (str ''ABC-1 LOG:1:60'') =
     Inl (FormatError (str ''LOG minutes must be < 60 for h:mm.''))"
  by code_simp+

text \<open>
  C6. The three forms of a LOG duration, as the code computes them. \<open>LOG:90m\<close>, \<open>LOG:1:30\<close>
  and \<open>LOG:1.5h\<close> all parse to \<open>logHours = 1.5\<close>. Each form decides the value on its own:
  digits and \<open>h\<close> (with an optional decimal part) are the double nearest to the hours
  written, \<open>h:mm\<close> is a format error when the minutes are 60 or more and else the sum, as a
  double, of the hours and of the double minutes/60, digits and \<open>m\<close> are the double
  minutes/60; a string has one of these forms at most, so the first form that matches is the
  only one. \<open>positiveHours\<close> is the sign check that follows in each case. Every value is
  rounded to a double, at each operation.
\<close>

theorem log_duration_forms:
  assumes "all_digits ds" and "all_digits fs" and "all_digits ms" and "length ms \<le> 2"
  shows "logTime (ds @ str ''h'') = positiveHours (to_double (of_nat (digits_value ds))) \<and>
         logTime (ds @ str ''.'' @ fs @ str ''h'') =
           positiveHours
             (to_double (of_nat (digits_value ds) + of_nat (digits_value fs) / 10 ^ length fs)) \<and>
         logTime (ds @ str '':'' @ ms) =
           (if 60 \<le> digits_value ms then failFormat (str ''LOG minutes must be < 60 for h:mm.'')
            else positiveHours
                   (number_plus (to_double (of_nat (digits_value ds)))
                      (to_double (of_nat (digits_value ms) / 60)))) \<and>
         logTime (ds @ str ''m'') =
           positiveHours (number_divide (to_double (of_nat (digits_value ds))) 60) \<and>
         map_sum id logHours (parseCommitMessage (str ''ABC-1 LOG:90m'')) =
           Inr (Some (Finite (3 / 2))) \<and>
         map_sum id logHours (parseCommitMessage (str ''ABC-1 LOG:1:30'')) =
           Inr (Some (Finite (3 / 2))) \<and>
         map_sum id logHours (parseCommitMessage (str ''ABC-1 LOG:1.5h'')) =
           Inr (Some (Finite (3 / 2))) \<and>
         parseCommitMessage (str ''ABC-1 LOG:1:60'') =
           Inl (FormatError (str ''LOG minutes must be < 60 for h:mm.''))"
  using logTime_hours [OF assms(1)] logTime_decimal [OF assms(1,2)]
    logTime_hmm [OF assms(1,3,4)] logTime_minutes [OF assms(1)] log_examples
  by simp

theorem log_duration_forms_witness:
  "all_digits (str ''1'') \<and> all_digits (str ''5'') \<and> all_digits (str ''30'') \<and>
   length (str ''30'') \<le> 2 \<and>
   logTime (str ''1h'') = Inr (Finite 1) \<and>
   logTime (str ''1.5h'') = Inr (Finite (3 / 2)) \<and>
   logTime (str ''1:30'') = Inr (Finite (3 / 2)) \<and>
   logTime (str ''1m'') = Inr (Finite (4803839602528529 / 288230376151711744))"
proof -
  have h: "all_digits (str ''1'')" "all_digits (str ''5'')" "all_digits (str ''30'')"
    "length (str ''30'') \<le> 2"
    by code_simp+
  have v: "positiveHours (to_double (of_nat (digits_value (str ''1'')))) = Inr (Finite 1)"
    "positiveHours (to_double (of_nat (digits_value (str ''1'')) +
       of_nat (digits_value (str ''5'')) / 10 ^ length (str ''5''))) = Inr (Finite (3 / 2))"
    "\<not> 60 \<le> digits_value (str ''30'')"
    "positiveHours (number_plus (to_double (of_nat (digits_value (str ''1''))))
       (to_double (of_nat (digits_value (str ''30'')) / 60))) = Inr (Finite (3 / 2))"
    "positiveHours (number_divide (to_double (of_nat (digits_value (str ''1'')))) 60) =
       Inr (Finite (4803839602528529 / 288230376151711744))"
    by code_simp+
  show ?thesis
    using h log_duration_forms [OF h] v by (simp add: str_def)
qed

text \<open>
  The forms are not interchangeable for every duration. One hour and forty minutes is
  \<open>1:40\<close> and \<open>100m\<close>: the first is \<open>1 + 40 / 60\<close>, two roundings, which is
  1.6666666666666665, and the second is \<open>100 / 60\<close>, one rounding, which is
  1.6666666666666667, the next double.
\<close>

theorem equal_durations_differ:
  "map_sum id logHours (parseCommitMessage (str ''ABC-1 LOG:1:40'')) =
     Inr (Some (Finite (3752999689475413 / 2251799813685248))) \<and>
   map_sum id logHours (parseCommitMessage (str ''ABC-1 LOG:100m'')) =
     Inr (Some (Finite (7505999378950827 / 4503599627370496)))"
  by code_simp

section \<open>What the date check accepts\<close>

lemma DayFromYear_mono_nat: "DayFromYear y + 365 * int n \<le> DayFromYear (y + int n)"
proof (induction n)
  case 0
  then show ?case by simp
next
  case (Suc n)
  have "DayFromYear (y + int n + 1) = DayFromYear (y + int n) + DaysInYear (y + int n)"
    by (rule DayFromYear_step)
  moreover have "365 \<le> DaysInYear (y + int n)" by (simp add: DaysInYear_def)
  ultimately show ?case using Suc by (simp add: algebra_simps)
qed

lemma DayFromYear_strict: "a < b \<Longrightarrow> DayFromYear a < DayFromYear b"
  using DayFromYear_mono_nat [of a "nat (b - a)"] by simp

lemma DayFromYear_1970: "DayFromYear 1970 = 0"
  by (simp add: DayFromYear_def)

lemma year_down_spec:
  "d < DayFromYear (y + 1) \<Longrightarrow>
     DayFromYear (year_down d y) \<le> d \<and> d < DayFromYear (year_down d y + 1)"
proof (induction d y rule: year_down.induct)
  case (1 d y)
  show ?case
  proof (cases "DayFromYear y \<le> d")
    case True
    with "1.prems" show ?thesis by (simp add: year_down.simps [of d y])
  next
    case False
    with "1.IH" have "DayFromYear (year_down d (y - 1)) \<le> d \<and> d < DayFromYear (year_down d (y - 1) + 1)"
      by simp
    with False show ?thesis by (simp add: year_down.simps [of d y])
  qed
qed

lemma start_year_above:
  "d < DayFromYear ((if 0 \<le> d then 1970 + d div 365 else 1969) + 1)"
proof (cases "0 \<le> d")
  case True
  have "DayFromYear 1970 + 365 * int (nat (d div 365 + 1)) \<le> DayFromYear (1970 + int (nat (d div 365 + 1)))"
    by (rule DayFromYear_mono_nat)
  moreover have "0 \<le> d div 365" using True by (simp add: pos_imp_zdiv_nonneg_iff)
  moreover have "d < 365 * (d div 365 + 1)"
    by simp
  ultimately show ?thesis using True by (simp add: DayFromYear_1970 algebra_simps)
next
  case False
  then show ?thesis by (simp add: DayFromYear_1970)
qed

lemma Day_times: "Day (d * msPerDay) = d"
  by (simp add: Day_def msPerDay_def)

text \<open>The search returns the year the specification defines.\<close>

lemma YearFromTime_largest:
  "DayFromYear (YearFromTime t) \<le> Day t \<and> Day t < DayFromYear (YearFromTime t + 1)"
  unfolding YearFromTime_def by (rule year_down_spec) (rule start_year_above)

lemma YearFromTime_unique:
  assumes "DayFromYear y \<le> Day t" "Day t < DayFromYear (y + 1)"
  shows "YearFromTime t = y"
proof (rule ccontr)
  assume n: "YearFromTime t \<noteq> y"
  note s = YearFromTime_largest [of t]
  show False
  proof (cases "YearFromTime t < y")
    case True
    then have "DayFromYear (YearFromTime t + 1) \<le> DayFromYear y"
      using DayFromYear_strict [of "YearFromTime t + 1" y] by (cases "YearFromTime t + 1 = y") auto
    with s assms show False by simp
  next
    case False
    with n have "y + 1 \<le> YearFromTime t" by simp
    then have "DayFromYear (y + 1) \<le> DayFromYear (YearFromTime t)"
      using DayFromYear_strict [of "y + 1" "YearFromTime t"] by (cases "y + 1 = YearFromTime t") auto
    with s assms show False by simp
  qed
qed

lemma DayWithinYear_range:
  "0 \<le> DayWithinYear t \<and> DayWithinYear t < 365 + InLeapYear t"
  using YearFromTime_largest [of t] DayFromYear_step [of "YearFromTime t"]
  by (auto simp: DayWithinYear_def InLeapYear_def DaysInYear_def split: if_splits)

lemma MonthFromTime_range: "0 \<le> MonthFromTime t \<and> MonthFromTime t \<le> 11"
  by (simp add: MonthFromTime_def Let_def)


text \<open>
  The calendar in the words of the specification of the parser: a date is real when its
  month is one of the twelve and its day is one of that month, February having 29 days in
  a leap year.
\<close>

definition leap_year :: "int \<Rightarrow> bool" where
  "leap_year y \<longleftrightarrow> y mod 4 = 0 \<and> (y mod 100 \<noteq> 0 \<or> y mod 400 = 0)"

definition days_in_month :: "int \<Rightarrow> int \<Rightarrow> int" where
  "days_in_month y m =
     (if m = 2 then (if leap_year y then 29 else 28)
      else if m = 4 \<or> m = 6 \<or> m = 9 \<or> m = 11 then 30
      else 31)"

definition calendar_date :: "int \<Rightarrow> int \<Rightarrow> int \<Rightarrow> bool" where
  "calendar_date y m d \<longleftrightarrow> 1 \<le> m \<and> m \<le> 12 \<and> 1 \<le> d \<and> d \<le> days_in_month y m"

lemma leap_DaysInYear: "(DaysInYear y = 366) = leap_year y"
  by (auto simp: DaysInYear_def leap_year_def)

lemma month_cases: "1 \<le> (m::int) \<Longrightarrow> m \<le> 12 \<Longrightarrow>
  m = 1 \<or> m = 2 \<or> m = 3 \<or> m = 4 \<or> m = 5 \<or> m = 6 \<or> m = 7 \<or> m = 8 \<or> m = 9 \<or> m = 10 \<or> m = 11 \<or> m = 12"
  by arith

lemma MakeDay_month:
  assumes "1 \<le> m" "m \<le> 12"
  shows "MakeDay y (m - 1) d =
           DayFromYear y + days_before_month (if leap_year y then 1 else 0) (m - 1) + d - 1"
proof -
  have "(m - 1) div 12 = 0" "(m - 1) mod 12 = m - 1" using assms by simp_all
  then show ?thesis by (simp add: MakeDay_def Let_def leap_DaysInYear)
qed

lemma days_before_month_nonneg: "0 \<le> l \<Longrightarrow> 0 \<le> days_before_month l m"
  by (simp add: days_before_month_def)

text \<open>The table of \<open>MonthFromTime\<close> and \<open>DateFromTime\<close>, on a day of a known month.\<close>

lemma month_table:
  assumes y: "YearFromTime t = y"
    and m: "1 \<le> m" "m \<le> 12"
    and day: "Day t = DayFromYear y + days_before_month (if leap_year y then 1 else 0) (m - 1) + d - 1"
  shows "(MonthFromTime t = m - 1 \<and> DateFromTime t = d) = (1 \<le> d \<and> d \<le> days_in_month y m)"
proof -
  define l :: int where "l = (if leap_year y then 1 else 0)"
  define w where "w = DayWithinYear t"
  have l: "InLeapYear t = l"
    by (simp add: InLeapYear_def y leap_DaysInYear l_def)
  have w: "w = days_before_month l (m - 1) + d - 1"
    by (simp add: DayWithinYear_def y day l_def w_def)
  have r: "0 \<le> w" "w < 365 + l"
    using DayWithinYear_range [of t] by (simp_all add: w_def l)
  have l01: "l = 0 \<or> l = 1" by (simp add: l_def)
  have dim: "days_in_month y m = (if m = 2 then 28 + l else if m = 4 \<or> m = 6 \<or> m = 9 \<or> m = 11 then 30 else 31)"
    by (simp add: days_in_month_def l_def)
  have M: "MonthFromTime t =
     (if 0 \<le> w \<and> w < 31 then 0
      else if 31 \<le> w \<and> w < 59 + l then 1
      else if 59 + l \<le> w \<and> w < 90 + l then 2
      else if 90 + l \<le> w \<and> w < 120 + l then 3
      else if 120 + l \<le> w \<and> w < 151 + l then 4
      else if 151 + l \<le> w \<and> w < 181 + l then 5
      else if 181 + l \<le> w \<and> w < 212 + l then 6
      else if 212 + l \<le> w \<and> w < 243 + l then 7
      else if 243 + l \<le> w \<and> w < 273 + l then 8
      else if 273 + l \<le> w \<and> w < 304 + l then 9
      else if 304 + l \<le> w \<and> w < 334 + l then 10
      else 11)"
    by (simp add: MonthFromTime_def Let_def l w_def)
  have D: "DateFromTime t = w + 1 - days_before_month l (MonthFromTime t)"
    by (simp add: DateFromTime_def Let_def l w_def [symmetric] days_before_month_def)
  have range: "(MonthFromTime t = m - 1) = (1 \<le> d \<and> d \<le> days_in_month y m)"
    using month_cases [OF m] l01 r unfolding M dim w
    by (elim disjE) (simp_all add: days_before_month_def)
  show ?thesis
  proof (cases "MonthFromTime t = m - 1")
    case True
    with D w have "DateFromTime t = d" by simp
    with True range show ?thesis by simp
  next
    case False
    with range show ?thesis by simp
  qed
qed


lemma DayFromYear_le: "a \<le> b \<Longrightarrow> DayFromYear a \<le> DayFromYear b"
  using DayFromYear_strict [of a b] by (cases "a = b") auto

lemma day_of_month_in_year:
  assumes "1 \<le> m" "m \<le> 12" "1 \<le> d" "d \<le> days_in_month y m"
  shows "0 \<le> days_before_month (if leap_year y then 1 else 0) (m - 1) + d - 1 \<and>
         days_before_month (if leap_year y then 1 else 0) (m - 1) + d - 1 < DaysInYear y"
proof -
  have "DaysInYear y = 365 + (if leap_year y then 1 else 0)"
    by (simp add: DaysInYear_def leap_year_def)
  then show ?thesis
    using month_cases [OF assms(1,2)] assms(3,4)
    by (elim disjE) (simp_all add: days_before_month_def days_in_month_def split: if_splits)
qed

lemma digit_value: "is_digit c \<Longrightarrow> nat (c - 48) \<le> 9"
  unfolding is_digit_def by arith

lemma digits_value_2: "is_digit a \<Longrightarrow> is_digit b \<Longrightarrow> digits_value [a, b] \<le> 99"
  using digit_value [of a] digit_value [of b] by (simp add: digits_value_def)

lemma digits_value_4:
  "is_digit a \<Longrightarrow> is_digit b \<Longrightarrow> is_digit c \<Longrightarrow> is_digit d \<Longrightarrow> digits_value [a, b, c, d] \<le> 9999"
  using digit_value [of a] digit_value [of b] digit_value [of c] digit_value [of d]
  by (simp add: digits_value_def)

lemma re_date_Some:
  "re_date s = Some (ys, ms, ds) \<Longrightarrow>
     s = ys @ 45 # ms @ 45 # ds \<and> length ys = 4 \<and> length ms = 2 \<and> length ds = 2 \<and>
     list_all is_digit ys \<and> list_all is_digit ms \<and> list_all is_digit ds \<and>
     digits_value ys \<le> 9999 \<and> digits_value ms \<le> 99 \<and> digits_value ds \<le> 99"
  by (induction s rule: re_date.induct)
     (auto split: if_splits simp: digits_value_2 digits_value_4)

text \<open>
  What \<open>isValidISODate\<close> accepts: the dates of the calendar from the year 100 on.
  \<open>Date.UTC\<close> reads a year below 100 as a year of the twentieth century, so that the
  year does not come back.
\<close>

lemma valid_date_iff:
  assumes y: "0 \<le> y" "y \<le> 9999" and mo: "0 \<le> mo" "mo \<le> 99" and d: "0 \<le> d" "d \<le> 99"
  shows "(map_option YearFromTime (Date_UTC y (mo - 1) d) = Some y \<and>
          map_option MonthFromTime (Date_UTC y (mo - 1) d) = Some (mo - 1) \<and>
          map_option DateFromTime (Date_UTC y (mo - 1) d) = Some d)
         = (100 \<le> y \<and> calendar_date y mo d)"
    (is "?valid = ?real")
proof
  assume v: ?valid
  then obtain t where dt: "Date_UTC y (mo - 1) d = Some t" by auto
  define yr where "yr = (if 0 \<le> y \<and> y \<le> 99 then 1900 + y else y)"
  from dt have t: "t = MakeDay yr (mo - 1) d * msPerDay"
    by (auto simp: Date_UTC_def TimeClip_def yr_def Let_def split: if_splits)
  from v dt have Y: "YearFromTime t = y" and M: "MonthFromTime t = mo - 1"
    and D: "DateFromTime t = d" by auto
  from M MonthFromTime_range [of t] have m: "1 \<le> mo" "mo \<le> 12" by auto
  have day: "Day t = DayFromYear yr + days_before_month (if leap_year yr then 1 else 0) (mo - 1) + d - 1"
    using MakeDay_month [OF m] by (simp add: t Day_times)
  have "100 \<le> y"
  proof (rule ccontr)
    assume "\<not> 100 \<le> y"
    with y have yr: "yr = 1900 + y" by (simp add: yr_def)
    have "DayFromYear (y + 1) < DayFromYear (y + 2)" by (rule DayFromYear_strict) simp
    moreover have "DayFromYear (y + 2) \<le> DayFromYear yr" by (rule DayFromYear_le) (simp add: yr)
    moreover have "0 \<le> days_before_month (if leap_year yr then 1 else 0) (mo - 1)"
      by (rule days_before_month_nonneg) simp
    ultimately have "DayFromYear (y + 1) \<le> Day t" using day d by simp
    with YearFromTime_largest [of t] Y show False by simp
  qed
  then have "yr = y" by (simp add: yr_def)
  with day month_table [OF Y m, of d] M D \<open>100 \<le> y\<close> m show ?real
    by (simp add: calendar_date_def)
next
  assume r: ?real
  then have m: "1 \<le> mo" "mo \<le> 12" and dd: "1 \<le> d" "d \<le> days_in_month y mo" and y100: "100 \<le> y"
    by (simp_all add: calendar_date_def)
  define day where "day = DayFromYear y + days_before_month (if leap_year y then 1 else 0) (mo - 1) + d - 1"
  have md: "MakeDay y (mo - 1) d = day" using MakeDay_month [OF m] by (simp add: day_def)
  note in_year = day_of_month_in_year [OF m dd]
  have lo: "DayFromYear y \<le> day" using in_year by (simp add: day_def)
  have hi: "day < DayFromYear (y + 1)" using in_year by (simp add: day_def DayFromYear_step)
  have "DayFromYear 100 \<le> DayFromYear y" using y100 by (rule DayFromYear_le)
  moreover have "DayFromYear (y + 1) \<le> DayFromYear 10000" using y by (intro DayFromYear_le) simp
  ultimately have "- 100000000 < day" "day < 100000000"
    using lo hi by (simp_all add: DayFromYear_def)
  then have "\<bar>day * msPerDay\<bar> \<le> 8640000000000000"
    by (simp add: msPerDay_def abs_le_iff)
  then have dt: "Date_UTC y (mo - 1) d = Some (day * msPerDay)"
    using y100 by (simp add: Date_UTC_def TimeClip_def md)
  have Y: "YearFromTime (day * msPerDay) = y"
    by (rule YearFromTime_unique) (simp_all add: Day_times lo hi)
  have "MonthFromTime (day * msPerDay) = mo - 1 \<and> DateFromTime (day * msPerDay) = d"
    using month_table [OF Y m, of d] dd by (simp add: Day_times day_def)
  with Y dt show ?valid by simp
qed

definition real_date :: "jsstring \<Rightarrow> bool" where
  "real_date s =
     (case re_date s of
        None \<Rightarrow> False
      | Some (ys, ms, ds) \<Rightarrow>
          calendar_date (int (digits_value ys)) (int (digits_value ms)) (int (digits_value ds)))"

definition year_of :: "jsstring \<Rightarrow> int" where
  "year_of s = (case re_date s of None \<Rightarrow> 0 | Some (ys, ms, ds) \<Rightarrow> int (digits_value ys))"

lemma isValidISODate_iff: "isValidISODate s = (real_date s \<and> 100 \<le> year_of s)"
proof (cases "re_date s")
  case None
  then show ?thesis by (simp add: isValidISODate_def real_date_def)
next
  case (Some x)
  obtain ys ms ds where x: "x = (ys, ms, ds)" by (cases x)
  from re_date_Some [OF Some [unfolded x]]
  have "int (digits_value ys) \<le> 9999" "int (digits_value ms) \<le> 99" "int (digits_value ds) \<le> 99"
    by simp_all
  then show ?thesis
    using valid_date_iff [of "int (digits_value ys)" "int (digits_value ms)" "int (digits_value ds)"]
    by (auto simp: isValidISODate_def real_date_def year_of_def Some x Let_def)
qed

section \<open>What a token captures\<close>

text \<open>
  A value the pattern can capture whole: it is not empty, it has no whitespace at either
  end and no line terminator, and no whitespace in it is followed by a reserved \<open>NAME:\<close>.
\<close>

fun no_boundary :: "jsstring \<Rightarrow> bool" where
  "no_boundary [] = True"
| "no_boundary (c # r) = (\<not> boundary (c # r) \<and> no_boundary r)"

definition plain :: "jsstring \<Rightarrow> bool" where
  "plain v \<longleftrightarrow>
     v \<noteq> [] \<and> \<not> is_space (hd v) \<and> \<not> is_space (last v) \<and>
     list_all (\<lambda>c. \<not> is_line_terminator c) v \<and> no_boundary v"

text \<open>Where a match for a name can begin: at the start of the line or after whitespace.\<close>

fun start_after_space :: "jsstring \<Rightarrow> jsstring \<Rightarrow> bool" where
  "start_after_space n [] = False"
| "start_after_space n (c # r) = ((is_space c \<and> prefix (n @ str '':'') r) \<or> start_after_space n r)"

definition token_start :: "jsstring \<Rightarrow> jsstring \<Rightarrow> bool" where
  "token_start n s \<longleftrightarrow> prefix (n @ str '':'') s \<or> start_after_space n s"

lemma upper_not_space: "is_upper c \<Longrightarrow> \<not> is_space c \<and> c \<noteq> 58"
  by (auto simp: is_upper_def is_space_def)

lemma token_name_upper: "n \<in> set TOKEN_NAMES \<Longrightarrow> n \<noteq> [] \<and> list_all is_upper n"
  by (auto simp: TOKEN_NAMES_def str_def is_upper_def)

lemma token_name_no_space:
  assumes "n \<in> set TOKEN_NAMES"
  shows "\<forall>c \<in> set (n @ str '':''). \<not> is_space c"
  using token_name_upper [OF assms] upper_not_space
  by (auto simp: str_def list_all_iff is_space_def)

lemma prefix_cross:
  assumes "\<forall>c \<in> set xs. \<not> is_space c" and "t = [] \<or> is_space (hd t)" and "prefix xs (r @ t)"
  shows "prefix xs r"
proof (cases "prefix xs r")
  case True
  then show ?thesis .
next
  case False
  with assms(3) obtain us where xs: "xs = r @ us" and p: "prefix us t"
    by (auto simp: prefix_append)
  from False xs have "us \<noteq> []" by auto
  then obtain u us' where us: "us = u # us'" by (cases us) auto
  with p have "t \<noteq> []" "hd t = u" by (auto simp: prefix_def)
  with assms(2) have "is_space u" by auto
  moreover have "u \<in> set xs" using xs us by simp
  ultimately show ?thesis using assms(1) by blast
qed

lemma boundary_cross:
  assumes "boundary (c # r @ t)" and "t = [] \<or> is_space (hd t)"
  shows "boundary (c # r)"
proof -
  from assms(1) obtain n where n: "n \<in> set TOKEN_NAMES" "prefix (n @ str '':'') (r @ t)" and c: "is_space c"
    by (auto simp: list_ex_iff)
  from prefix_cross [OF token_name_no_space [OF n(1)] assms(2) n(2)] n(1) c
  show ?thesis by (auto simp: list_ex_iff)
qed

lemma trailing_Some_space: "trailing t = Some k \<Longrightarrow> t = [] \<or> is_space (hd t)"
  by (cases t) (auto split: if_splits option.splits)

lemma trailing_inside:
  assumes "w \<noteq> []" "\<not> is_space (last w)" "no_boundary w" "t = [] \<or> is_space (hd t)"
  shows "trailing (w @ t) = None"
  using assms
proof (induction w)
  case Nil
  then show ?case by simp
next
  case (Cons c w)
  have nb: "\<not> boundary (c # w @ t)"
    using Cons.prems(3,4) boundary_cross [of c w t] by auto
  show ?case
  proof (cases "is_space c")
    case True
    with Cons.prems have "w \<noteq> []" by auto
    with Cons have "trailing (w @ t) = None" by auto
    with nb show ?thesis by simp
  next
    case False
    with nb show ?thesis by simp
  qed
qed

lemma lazy_tail_start: "trailing t = Some k \<Longrightarrow> lazy_tail t = Some ([], k)"
  by (cases t) auto

lemma lazy_tail_value:
  assumes "list_all (\<lambda>c. \<not> is_line_terminator c) w" "no_boundary w"
    "w = [] \<or> \<not> is_space (last w)" "trailing t = Some k"
  shows "lazy_tail (w @ t) = Some (w, k)"
  using assms
proof (induction w)
  case Nil
  then show ?case by (simp add: lazy_tail_start)
next
  case (Cons c w)
  have "trailing ((c # w) @ t) = None"
    using Cons.prems trailing_Some_space [of t k] by (intro trailing_inside) auto
  moreover have "lazy_tail (w @ t) = Some (w, k)"
    using Cons by (auto split: if_splits)
  ultimately show ?case using Cons.prems(1) by simp
qed

lemma capture_value:
  assumes "plain v" "trailing t = Some k"
  shows "capture (v @ t) = Some (v, k)"
proof -
  from assms(1) obtain c w where v: "v = c # w" by (cases v) (auto simp: plain_def)
  have "lazy_tail (w @ t) = Some (w, k)"
    using assms by (intro lazy_tail_value) (auto simp: plain_def v split: if_splits)
  with assms(1) show ?thesis by (simp add: v plain_def)
qed

lemma value_part_value:
  assumes "list_all is_space ws" "plain v" "trailing t = Some k"
  shows "value_part (ws @ v @ t) = Some (length ws, v, k)"
  using assms(1)
proof (induction ws)
  case Nil
  from assms(2) obtain c w where v: "v = c # w" by (cases v) (auto simp: plain_def)
  with assms(2) have "\<not> is_space c" by (simp add: plain_def)
  then have "value_part (c # w @ t) = map_option (\<lambda>(v, n). (0, v, n)) (capture (c # w @ t))"
    by (simp del: capture.simps)
  with capture_value [OF assms(2,3)] show ?case by (simp add: v del: capture.simps)
next
  case (Cons c ws)
  then show ?case by (simp del: capture.simps)
qed

lemma after_name_value:
  assumes "list_all is_space ws" "plain v" "trailing t = Some k"
  shows "after_name n (n @ str '':'' @ ws @ v @ t) = Some (length n + 1 + length ws + length v + k, v)"
  using value_part_value [OF assms] by (simp add: after_name_def str_def)

lemma match_here_no_start:
  "\<not> (case s of [] \<Rightarrow> False | c # r \<Rightarrow> is_space c \<and> prefix (n @ str '':'') r) \<Longrightarrow>
   match_here n False s = None"
  by (auto simp: match_here_def after_name_def split: list.splits)

lemma re_exec_skip:
  assumes "\<not> start_after_space n pre" and "\<forall>c \<in> set (n @ str '':''). \<not> is_space c"
    and "s = [] \<or> is_space (hd s)"
  shows "re_exec n False (pre @ s) =
           map_option (\<lambda>(i, l, v). (length pre + i, l, v)) (re_exec n False s)"
  using assms(1)
proof (induction pre)
  case Nil
  show ?case by (simp add: option.map_ident case_prod_unfold)
next
  case (Cons c pre)
  have "\<not> (is_space c \<and> prefix (n @ str '':'') (pre @ s))"
    using Cons.prems prefix_cross [OF assms(2,3), of pre] by auto
  then have "match_here n False (c # pre @ s) = None"
    by (intro match_here_no_start) simp
  moreover have "re_exec n False (pre @ s) =
           map_option (\<lambda>(i, l, v). (length pre + i, l, v)) (re_exec n False s)"
    using Cons by simp
  ultimately show ?case
    by (simp add: option.map_comp comp_def case_prod_unfold)
qed

lemma re_exec_at_start:
  "\<not> prefix (n @ str '':'') s \<Longrightarrow> re_exec n True s = re_exec n False s"
  by (cases s) (simp_all add: match_here_def after_name_def)

lemma re_exec_none:
  assumes "\<not> start_after_space n s"
  shows "re_exec n False s = None"
  using assms
proof (induction s)
  case Nil
  then show ?case by (simp add: match_here_def)
next
  case (Cons c s)
  then have "match_here n False (c # s) = None"
    by (intro match_here_no_start) simp
  with Cons show ?case by simp
qed

lemma plain_trim: "plain v \<Longrightarrow> trim v = v"
proof -
  assume p: "plain v"
  then obtain c w where v: "v = c # w" by (cases v) (auto simp: plain_def)
  from p have "trimStart v = v" by (simp add: v plain_def trimStart_def)
  moreover from p have "dropWhile is_space (rev v) = rev v"
    by (cases "rev v") (auto simp: plain_def last_rev [symmetric] hd_rev simp del: last_rev)
  ultimately show ?thesis by (simp add: trim_def trimEnd_def)
qed


lemma trailing_boundary: "boundary rest \<Longrightarrow> trailing rest = Some 0"
proof (cases rest)
  case Nil
  then show ?thesis by simp
next
  case (Cons c r)
  assume b: "boundary rest"
  with Cons obtain n where n: "n \<in> set TOKEN_NAMES" "prefix (n @ str '':'') r"
    by (auto simp: list_ex_iff)
  from token_name_upper [OF n(1)] obtain a n' where a: "n = a # n'" "is_upper a"
    by (cases n) auto
  with n(2) obtain r' where r: "r = a # r'" by (cases r) auto
  from a have "\<not> is_space a" using upper_not_space by blast
  then have "trailing r = None" by (simp add: r)
  with b Cons show ?thesis by simp
qed

lemma trailing_spaces:
  "list_all is_space ws \<Longrightarrow> boundary rest \<Longrightarrow> trailing (ws @ rest) = Some (length ws)"
  by (induction ws) (simp_all add: trailing_boundary)

lemma getToken_found:
  assumes name: "name \<in> set TOKEN_NAMES"
    and sp: "is_space sp"
    and ws: "list_all is_space ws1" "list_all is_space ws2"
    and v: "plain v"
    and rest: "boundary rest"
    and pre: "\<not> token_start name pre"
  shows "re_exec name True (pre @ sp # name @ str '':'' @ ws1 @ v @ ws2 @ rest) =
           Some (length pre, length name + length ws1 + length v + length ws2 + 2, v)"
proof -
  let ?s = "sp # name @ str '':'' @ ws1 @ v @ ws2 @ rest"
  note ns = token_name_no_space [OF name]
  have s: "?s = [] \<or> is_space (hd ?s)" using sp by simp
  have "\<not> prefix (name @ str '':'') (pre @ ?s)"
    using prefix_cross [OF ns s, of pre] pre by (auto simp: token_start_def)
  then have "re_exec name True (pre @ ?s) = re_exec name False (pre @ ?s)"
    by (rule re_exec_at_start)
  also have "\<dots> = map_option (\<lambda>(i, l, v). (length pre + i, l, v)) (re_exec name False ?s)"
    using pre by (intro re_exec_skip [OF _ ns s]) (simp add: token_start_def)
  also have "re_exec name False ?s =
      Some (0, length name + length ws1 + length v + length ws2 + 2, v)"
    using after_name_value [OF ws(1) v trailing_spaces [OF ws(2) rest], of name] sp
    by (simp add: match_here_def)
  finally show ?thesis by simp
qed

lemma boundary_example:
  "map_sum id (\<lambda>r. (comment r, logHours r, logDate r))
     (parseCommitMessage (str ''ABC-1 COMMENT:Fix HTTP:500 retry handler LOG:1h@2025-10-13'')) =
   Inr (Some (str ''Fix HTTP:500 retry handler''), Some (Finite 1), Some (str ''2025-10-13''))"
  by code_simp

text \<open>
  C1. Only the reserved names bound a value. When \<open>NAME:\<close> stands after whitespace and
  not earlier in the line, and is followed by optional whitespace, a value \<open>v\<close> that is
  \<open>plain\<close> (it may hold any other text, colons included), optional whitespace, and then
  the end of the line or a whitespace before one of the seven reserved \<open>NAME:\<close>
  (\<open>boundary\<close>), \<open>getToken\<close> returns exactly \<open>v\<close>. For the line
  \<open>ABC-1 COMMENT:Fix HTTP:500 retry handler LOG:1h@2025-10-13\<close> the parser returns the comment
  \<open>Fix HTTP:500 retry handler\<close>, 1 hour and the date \<open>2025-10-13\<close>.
\<close>

theorem token_value_capture:
  assumes "name \<in> set TOKEN_NAMES"
    and "is_space sp"
    and "list_all is_space ws1" and "list_all is_space ws2"
    and "plain v"
    and "boundary rest"
    and "\<not> token_start name pre"
  shows "getToken (pre @ sp # name @ str '':'' @ ws1 @ v @ ws2 @ rest) name = Some v \<and>
         map_sum id (\<lambda>r. (comment r, logHours r, logDate r))
           (parseCommitMessage (str ''ABC-1 COMMENT:Fix HTTP:500 retry handler LOG:1h@2025-10-13'')) =
         Inr (Some (str ''Fix HTTP:500 retry handler''), Some (Finite 1), Some (str ''2025-10-13''))"
  using getToken_found [OF assms] plain_trim [OF assms(5)] boundary_example
  by (simp add: getToken_def)

theorem token_value_capture_witness:
  "str ''COMMENT'' \<in> set TOKEN_NAMES \<and> is_space 32 \<and> plain (str ''Fix HTTP:500 retry handler'') \<and>
   boundary (str '' LOG:1h@2025-10-13'') \<and> \<not> token_start (str ''COMMENT'') (str ''ABC-1'') \<and>
   getToken (str ''ABC-1 COMMENT:Fix HTTP:500 retry handler LOG:1h@2025-10-13'') (str ''COMMENT'') =
     Some (str ''Fix HTTP:500 retry handler'')"
proof -
  have h: "str ''COMMENT'' \<in> set TOKEN_NAMES" "is_space 32" "list_all is_space []"
    "list_all is_space []" "plain (str ''Fix HTTP:500 retry handler'')"
    "boundary (str '' LOG:1h@2025-10-13'')" "\<not> token_start (str ''COMMENT'') (str ''ABC-1'')"
    by code_simp+
  have l: "str ''ABC-1'' @ 32 # str ''COMMENT'' @ str '':'' @ [] @
             str ''Fix HTTP:500 retry handler'' @ [] @ str '' LOG:1h@2025-10-13'' =
           str ''ABC-1 COMMENT:Fix HTTP:500 retry handler LOG:1h@2025-10-13''"
    by (simp add: str_def)
  show ?thesis
    using h token_value_capture [OF h] unfolding l by simp
qed

section \<open>The shape of a parse\<close>

lemma capture_nonspace: "capture s = Some (v, n) \<Longrightarrow> v \<noteq> [] \<and> \<not> is_space (hd v)"
  by (cases s) (auto split: if_splits)

lemma value_part_nonspace: "value_part s = Some (k, v, n) \<Longrightarrow> v \<noteq> [] \<and> \<not> is_space (hd v)"
proof (induction s arbitrary: k)
  case Nil
  then show ?case by simp
next
  case (Cons c r)
  show ?case
  proof (cases "if is_space c then value_part r else None")
    case None
    with Cons.prems have "capture (c # r) = Some (v, n)" by (auto simp del: capture.simps)
    then show ?thesis by (rule capture_nonspace)
  next
    case (Some x)
    obtain k' v' n' where x: "x = (k', v', n')" by (cases x)
    with Some Cons.prems have "value_part r = Some (k', v, n)"
      by (auto split: if_splits simp del: capture.simps)
    then show ?thesis by (rule Cons.IH)
  qed
qed

lemma re_exec_nonspace: "re_exec n b s = Some (i, l, v) \<Longrightarrow> v \<noteq> [] \<and> \<not> is_space (hd v)"
proof (induction s arbitrary: b i)
  case Nil
  then show ?case by (auto simp: match_here_def after_name_def dest: value_part_nonspace split: if_splits)
next
  case (Cons c r)
  show ?case
  proof (cases "match_here n b (c # r)")
    case None
    with Cons.prems obtain i' where "re_exec n False r = Some (i', l, v)" by auto
    then show ?thesis by (rule Cons.IH)
  next
    case (Some x)
    with Cons.prems have "match_here n b (c # r) = Some (l, v)" by (cases x) auto
    then show ?thesis
      by (auto simp: match_here_def after_name_def dest: value_part_nonspace
          split: if_splits option.splits)
  qed
qed

lemma trimEnd_Cons_nonspace:
  "\<not> is_space c \<Longrightarrow> trimEnd (c # w) = c # rev (dropWhile is_space (rev w))"
  by (simp add: trimEnd_def dropWhile_append3)

lemma trim_idem_nonspace:
  assumes "v \<noteq> []" "\<not> is_space (hd v)"
  shows "trim v \<noteq> [] \<and> trim (trim v) = trim v"
proof -
  from assms obtain c w where v: "v = c # w" and c: "\<not> is_space c" by (cases v) auto
  define u where "u = rev (dropWhile is_space (rev w))"
  have t: "trim v = c # u"
    using c by (simp add: trim_def trimStart_def v trimEnd_Cons_nonspace u_def)
  have "trimEnd (c # u) = c # u"
    using c by (simp add: trimEnd_Cons_nonspace u_def)
  then have "trim (c # u) = c # u"
    using c by (simp add: trim_def trimStart_def)
  with t show ?thesis by simp
qed

lemma getToken_trimmed: "getToken line n = Some t \<Longrightarrow> t \<noteq> [] \<and> trim t = t"
  by (auto simp: getToken_def dest!: re_exec_nonspace dest: trim_idem_nonspace)

lemma tidy_getToken: "tidy (getToken line n) = getToken line n"
  by (cases "getToken line n") (auto simp: tidy_def dest: getToken_trimmed)

lemma truthy_getToken: "truthy (getToken line n) = (getToken line n \<noteq> None)"
  by (cases "getToken line n") (auto simp: truthy_def dest: getToken_trimmed)


text \<open>The message passes the checks that come before the tokens are read.\<close>

definition reaches_tokens :: "jsstring \<Rightarrow> bool" where
  "reaches_tokens message \<longleftrightarrow>
     trim message \<noteq> [] \<and> keyMatch (sanitizeFirstLine message) \<noteq> None \<and>
     forEach (onlyOne (sanitizeFirstLine message)) TOKEN_NAMES = Inr ()"

lemma status_guard: "(case getToken line n of None \<Rightarrow> False | Some s \<Rightarrow> trim s = []) = False"
  by (cases "getToken line n") (auto dest: getToken_trimmed)

lemma phase_choice:
  "(if \<not> truthy (getToken line p) \<and> truthy (getToken line c) then getToken line c
    else getToken line p) =
   (case getToken line p of Some x \<Rightarrow> Some x | None \<Rightarrow> getToken line c)"
  by (auto simp: truthy_getToken split: option.splits)

lemma parse_tokens:
  assumes "reaches_tokens m"
  shows "\<exists>key. keyMatch (sanitizeFirstLine m) = Some key \<and>
     parseCommitMessage m =
       (case parseLog (getToken (sanitizeFirstLine m) (str ''LOG''))
               (getToken (sanitizeFirstLine m) (str ''DATE'')) of
          Inl e \<Rightarrow> Inl e
        | Inr (h, d) \<Rightarrow>
            Inr \<lparr>issue = key, issueKey = key,
                 status = getToken (sanitizeFirstLine m) (str ''STATUS''),
                 logHours = h, logDate = d,
                 comment = getToken (sanitizeFirstLine m) (str ''COMMENT''),
                 phase = (case getToken (sanitizeFirstLine m) (str ''PHASE'') of
                            Some x \<Rightarrow> Some x
                          | None \<Rightarrow> getToken (sanitizeFirstLine m) (str ''CAT'')),
                 ready = parseReady (getToken (sanitizeFirstLine m) (str ''READY'')),
                 firstLine = sanitizeFirstLine m\<rparr>)"
proof -
  from assms obtain key where key: "keyMatch (sanitizeFirstLine m) = Some key"
    by (auto simp: reaches_tokens_def)
  have "parseCommitMessage m =
      (case parseLog (getToken (sanitizeFirstLine m) (str ''LOG''))
              (getToken (sanitizeFirstLine m) (str ''DATE'')) of
         Inl e \<Rightarrow> Inl e
       | Inr (hours, date) \<Rightarrow>
           if (case getToken (sanitizeFirstLine m) (str ''STATUS'') of
                 None \<Rightarrow> False | Some s \<Rightarrow> trim s = [])
           then failFormat (str ''STATUS value cannot be empty.'')
           else Inr \<lparr>issue = key, issueKey = key,
                 status = getToken (sanitizeFirstLine m) (str ''STATUS''),
                 logHours = hours, logDate = date,
                 comment = getToken (sanitizeFirstLine m) (str ''COMMENT''),
                 phase = (if \<not> truthy (getToken (sanitizeFirstLine m) (str ''PHASE'')) \<and>
                             truthy (getToken (sanitizeFirstLine m) (str ''CAT''))
                          then getToken (sanitizeFirstLine m) (str ''CAT'')
                          else getToken (sanitizeFirstLine m) (str ''PHASE'')),
                 ready = parseReady (getToken (sanitizeFirstLine m) (str ''READY'')),
                 firstLine = sanitizeFirstLine m\<rparr>)"
    using assms key
    by (simp add: reaches_tokens_def parseCommitMessage_def Let_def tidy_getToken
        del: if_split cong: if_cong sum.case_cong)
  then show ?thesis
    unfolding status_guard phase_choice using key by (auto split: sum.splits)
qed

lemma parse_reaches: "parseCommitMessage m = Inr r \<Longrightarrow> reaches_tokens m"
  by (auto simp: parseCommitMessage_def reaches_tokens_def Let_def failFormat_def
      split: if_splits option.splits sum.splits)

lemma parse_error:
  assumes "reaches_tokens m"
    and "parseLog (getToken (sanitizeFirstLine m) (str ''LOG''))
           (getToken (sanitizeFirstLine m) (str ''DATE'')) = Inl e"
  shows "parseCommitMessage m = Inl e"
  using parse_tokens [OF assms(1)] assms(2) by auto

lemma parse_success:
  assumes "reaches_tokens m"
    and "parseLog (getToken (sanitizeFirstLine m) (str ''LOG''))
           (getToken (sanitizeFirstLine m) (str ''DATE'')) = Inr (h, d)"
  shows "\<exists>r. parseCommitMessage m = Inr r \<and> logHours r = h \<and> logDate r = d"
  using parse_tokens [OF assms(1)] assms(2) by auto

lemma parse_fields:
  assumes "parseCommitMessage m = Inr r"
  shows "status r = getToken (sanitizeFirstLine m) (str ''STATUS'') \<and>
         comment r = getToken (sanitizeFirstLine m) (str ''COMMENT'') \<and>
         phase r = (case getToken (sanitizeFirstLine m) (str ''PHASE'') of
                      Some x \<Rightarrow> Some x
                    | None \<Rightarrow> getToken (sanitizeFirstLine m) (str ''CAT'')) \<and>
         ready r = parseReady (getToken (sanitizeFirstLine m) (str ''READY'')) \<and>
         parseLog (getToken (sanitizeFirstLine m) (str ''LOG''))
           (getToken (sanitizeFirstLine m) (str ''DATE'')) = Inr (logHours r, logDate r)"
proof (cases "parseLog (getToken (sanitizeFirstLine m) (str ''LOG''))
           (getToken (sanitizeFirstLine m) (str ''DATE''))")
  case (Inl e)
  with parse_tokens [OF parse_reaches [OF assms]] assms show ?thesis by auto
next
  case (Inr x)
  obtain h d where x: "x = (h, d)" by (cases x)
  with Inr parse_tokens [OF parse_reaches [OF assms]] assms show ?thesis by auto
qed

lemma checkDate_cases:
  "checkDate d =
     (if re_date d = None then Inl (FormatError (str ''date must be yyyy-mm-dd.''))
      else if real_date d \<and> 100 \<le> year_of d then Inr d
      else Inl CalendarError)"
  by (simp add: checkDate_def isValidISODate_iff failFormat_def)

section \<open>Phase and readiness\<close>

lemma phase_examples:
  "map_sum id phase (parseCommitMessage (str ''ABC-1 PHASE:Dev CAT:Ops'')) = Inr (Some (str ''Dev''))"
  "map_sum id phase (parseCommitMessage (str ''ABC-1 CAT:Ops PHASE:Dev'')) = Inr (Some (str ''Dev''))"
  "map_sum id phase (parseCommitMessage (str ''ABC-1 CAT:QA'')) = Inr (Some (str ''QA''))"
  "map_sum id phase (parseCommitMessage (str ''ABC-7'')) = Inr None"
  by code_simp+

text \<open>
  C8. On success the phase is the (trimmed) value of the \<open>PHASE\<close> token when there is
  one, else that of the \<open>CAT\<close> token when there is one, else null. A line with both is
  parsed without error and \<open>PHASE\<close> wins, in either order.
\<close>

theorem phase_resolution:
  assumes "parseCommitMessage m = Inr r"
  shows "phase r =
           (case getToken (sanitizeFirstLine m) (str ''PHASE'') of
              Some p \<Rightarrow> Some p
            | None \<Rightarrow> getToken (sanitizeFirstLine m) (str ''CAT'')) \<and>
         map_sum id phase (parseCommitMessage (str ''ABC-1 PHASE:Dev CAT:Ops'')) = Inr (Some (str ''Dev'')) \<and>
         map_sum id phase (parseCommitMessage (str ''ABC-1 CAT:Ops PHASE:Dev'')) = Inr (Some (str ''Dev'')) \<and>
         map_sum id phase (parseCommitMessage (str ''ABC-1 CAT:QA'')) = Inr (Some (str ''QA'')) \<and>
         map_sum id phase (parseCommitMessage (str ''ABC-7'')) = Inr None"
  using parse_fields [OF assms] phase_examples by simp

theorem phase_resolution_witness:
  "parseCommitMessage (str ''ABC-1 PHASE:Dev CAT:Ops'') =
     Inr \<lparr>issue = str ''ABC-1'', issueKey = str ''ABC-1'', status = None, logHours = None,
          logDate = None, comment = None, phase = Some (str ''Dev''), ready = None,
          firstLine = str ''ABC-1 PHASE:Dev CAT:Ops''\<rparr> \<and>
   getToken (sanitizeFirstLine (str ''ABC-1 PHASE:Dev CAT:Ops'')) (str ''PHASE'') = Some (str ''Dev'') \<and>
   getToken (sanitizeFirstLine (str ''ABC-1 PHASE:Dev CAT:Ops'')) (str ''CAT'') = Some (str ''Ops'')"
proof -
  have p: "parseCommitMessage (str ''ABC-1 PHASE:Dev CAT:Ops'') =
     Inr \<lparr>issue = str ''ABC-1'', issueKey = str ''ABC-1'', status = None, logHours = None,
          logDate = None, comment = None, phase = Some (str ''Dev''), ready = None,
          firstLine = str ''ABC-1 PHASE:Dev CAT:Ops''\<rparr>"
    by code_simp
  have c: "getToken (sanitizeFirstLine (str ''ABC-1 PHASE:Dev CAT:Ops'')) (str ''CAT'') = Some (str ''Ops'')"
    by code_simp
  have n: "str ''Dev'' \<noteq> str ''Ops''" by (simp add: str_def)
  from phase_resolution [OF p]
  have "Some (str ''Dev'') =
      (case getToken (sanitizeFirstLine (str ''ABC-1 PHASE:Dev CAT:Ops'')) (str ''PHASE'') of
         Some p \<Rightarrow> Some p
       | None \<Rightarrow> getToken (sanitizeFirstLine (str ''ABC-1 PHASE:Dev CAT:Ops'')) (str ''CAT''))"
    by simp
  with c n have "getToken (sanitizeFirstLine (str ''ABC-1 PHASE:Dev CAT:Ops'')) (str ''PHASE'') =
      Some (str ''Dev'')"
    by (cases "getToken (sanitizeFirstLine (str ''ABC-1 PHASE:Dev CAT:Ops'')) (str ''PHASE'')")
       simp_all
  with p c show ?thesis by simp
qed

lemma ready_true_examples:
  "map_sum id ready (parseCommitMessage (str ''ABC-1 READY:Yes'')) = Inr (Some True)"
  "map_sum id ready (parseCommitMessage (str ''ABC-1 READY:true'')) = Inr (Some True)"
  "map_sum id ready (parseCommitMessage (str ''ABC-1 READY:1'')) = Inr (Some True)"
  "map_sum id ready (parseCommitMessage (str ''ABC-1 READY:Y'')) = Inr (Some True)"
  by code_simp+

lemma ready_false_examples:
  "map_sum id ready (parseCommitMessage (str ''ABC-1 READY:No'')) = Inr (Some False)"
  "map_sum id ready (parseCommitMessage (str ''ABC-1 READY:false'')) = Inr (Some False)"
  "map_sum id ready (parseCommitMessage (str ''ABC-1 READY:0'')) = Inr (Some False)"
  "map_sum id ready (parseCommitMessage (str ''ABC-1 READY:N'')) = Inr (Some False)"
  by code_simp+

lemma ready_null_examples:
  "map_sum id ready (parseCommitMessage (str ''ABC-1 READY:maybe'')) = Inr None"
  "map_sum id ready (parseCommitMessage (str ''ABC-1 STATUS:Done'')) = Inr None"
  by code_simp+

lemma parseReady_getToken:
  "parseReady (getToken line n) =
     (case getToken line n of
        None \<Rightarrow> None
      | Some v \<Rightarrow>
          if toLowerCase v \<in> set (map str [''y'', ''yes'', ''true'', ''1'']) then Some True
          else if toLowerCase v \<in> set (map str [''n'', ''no'', ''false'', ''0'']) then Some False
          else None)"
proof (cases "getToken line n")
  case None
  then show ?thesis by (simp add: parseReady_def)
next
  case (Some v)
  from getToken_trimmed [OF Some] have "trim v = v" by simp
  with Some show ?thesis by (simp add: parseReady_def Let_def)
qed

text \<open>
  C9. The \<open>READY\<close> value is compared without regard to case: one of y, yes, true, 1 gives
  true, one of n, no, false, 0 gives false, any other value and a missing token give
  null. No value of \<open>READY\<close> raises an error: once the key and the uniqueness checks are
  passed, an error of the parser is an error of the LOG and DATE part.
\<close>

theorem ready_normalization:
  assumes "reaches_tokens m"
  shows "(case parseCommitMessage m of
            Inl e \<Rightarrow>
              parseLog (getToken (sanitizeFirstLine m) (str ''LOG''))
                (getToken (sanitizeFirstLine m) (str ''DATE'')) = Inl e
          | Inr r \<Rightarrow>
              ready r =
                (case getToken (sanitizeFirstLine m) (str ''READY'') of
                   None \<Rightarrow> None
                 | Some v \<Rightarrow>
                     if toLowerCase v \<in> set (map str [''y'', ''yes'', ''true'', ''1''])
                     then Some True
                     else if toLowerCase v \<in> set (map str [''n'', ''no'', ''false'', ''0''])
                     then Some False
                     else None)) \<and>
         map (\<lambda>v. map_sum id ready (parseCommitMessage (str ''ABC-1 READY:'' @ str v)))
           [''Yes'', ''true'', ''1'', ''Y'', ''No'', ''false'', ''0'', ''N'', ''maybe''] =
         map Inr [Some True, Some True, Some True, Some True,
                  Some False, Some False, Some False, Some False, None] \<and>
         map_sum id ready (parseCommitMessage (str ''ABC-1 STATUS:Done'')) = Inr None"
proof -
  from parse_tokens [OF assms] obtain key where
    p: "parseCommitMessage m =
       (case parseLog (getToken (sanitizeFirstLine m) (str ''LOG''))
               (getToken (sanitizeFirstLine m) (str ''DATE'')) of
          Inl e \<Rightarrow> Inl e
        | Inr (h, d) \<Rightarrow>
            Inr \<lparr>issue = key, issueKey = key,
                 status = getToken (sanitizeFirstLine m) (str ''STATUS''),
                 logHours = h, logDate = d,
                 comment = getToken (sanitizeFirstLine m) (str ''COMMENT''),
                 phase = (case getToken (sanitizeFirstLine m) (str ''PHASE'') of
                            Some x \<Rightarrow> Some x
                          | None \<Rightarrow> getToken (sanitizeFirstLine m) (str ''CAT'')),
                 ready = parseReady (getToken (sanitizeFirstLine m) (str ''READY'')),
                 firstLine = sanitizeFirstLine m\<rparr>)"
    by blast
  have 1: "(case parseCommitMessage m of
            Inl e \<Rightarrow>
              parseLog (getToken (sanitizeFirstLine m) (str ''LOG''))
                (getToken (sanitizeFirstLine m) (str ''DATE'')) = Inl e
          | Inr r \<Rightarrow> ready r = parseReady (getToken (sanitizeFirstLine m) (str ''READY'')))"
    unfolding p by (auto split: sum.splits)
  have 2: "map (\<lambda>v. map_sum id ready (parseCommitMessage (str ''ABC-1 READY:'' @ str v)))
           [''Yes'', ''true'', ''1'', ''Y'', ''No'', ''false'', ''0'', ''N'', ''maybe''] =
         map Inr [Some True, Some True, Some True, Some True,
                  Some False, Some False, Some False, Some False, None]"
    using ready_true_examples ready_false_examples ready_null_examples(1)
    by (simp add: str_def)
  from 1 2 ready_null_examples(2) show ?thesis
    unfolding parseReady_getToken by simp
qed

theorem ready_normalization_witness:
  "reaches_tokens (str ''ABC-1 READY:YES'') \<and>
   getToken (sanitizeFirstLine (str ''ABC-1 READY:YES'')) (str ''READY'') = Some (str ''YES'') \<and>
   toLowerCase (str ''YES'') = str ''yes'' \<and>
   map_sum id ready (parseCommitMessage (str ''ABC-1 READY:YES'')) = Inr (Some True)"
proof -
  have h: "reaches_tokens (str ''ABC-1 READY:YES'')" by code_simp
  have g: "getToken (sanitizeFirstLine (str ''ABC-1 READY:YES'')) (str ''READY'') = Some (str ''YES'')"
    "toLowerCase (str ''YES'') = str ''yes''"
    "str ''yes'' \<in> set (map str [''y'', ''yes'', ''true'', ''1''])"
    by code_simp+
  have r: "parseCommitMessage (str ''ABC-1 READY:YES'') =
     Inr \<lparr>issue = str ''ABC-1'', issueKey = str ''ABC-1'', status = None, logHours = None,
          logDate = None, comment = None, phase = None, ready = Some True,
          firstLine = str ''ABC-1 READY:YES''\<rparr>"
    by code_simp
  from ready_normalization [OF h, THEN conjunct1] g
  have "ready \<lparr>issue = str ''ABC-1'', issueKey = str ''ABC-1'', status = None, logHours = None,
          logDate = None, comment = None, phase = None, ready = Some True,
          firstLine = str ''ABC-1 READY:YES''\<rparr> = Some True"
    unfolding r by simp
  with r h g show ?thesis by simp
qed

section \<open>Dates of the log\<close>

lemma re_date_nonempty: "re_date d \<noteq> None \<Longrightarrow> d \<noteq> []"
  by (cases d) auto

lemma parseLog_no_log:
  "parseLog None dateToken =
     (case dateToken of
        None \<Rightarrow> Inr (None, None)
      | Some d \<Rightarrow>
          if d = [] then Inr (None, None)
          else (case checkDate d of Inl e \<Rightarrow> Inl e | Inr d' \<Rightarrow> Inr (None, Some d')))"
  by (simp add: parseLog_def truthy_def split: option.splits)

lemma parseLog_inline_date:
  assumes "raw \<noteq> []" "logTime (timePart raw) = Inr h" "datePart raw = Some d" "d \<noteq> []"
  shows "parseLog (Some raw) dateToken =
           (case checkDate d of Inl e \<Rightarrow> Inl e | Inr d' \<Rightarrow> Inr (Some h, Some d'))"
  using assms by (simp add: parseLog_def truthy_def)

lemma parseLog_no_date:
  assumes "\<not> truthy (datePart raw)"
  shows "parseLog (Some raw) None = Inr (a, b) \<Longrightarrow> b = None"
  using assms by (auto simp: parseLog_def truthy_def split: if_splits sum.splits)

lemma date_only_examples:
  "map_sum id (\<lambda>r. (logHours r, logDate r)) (parseCommitMessage (str ''ABC-1 DATE:2025-10-12'')) =
     Inr (None, Some (str ''2025-10-12''))"
  "parseCommitMessage (str ''ABC-1 DATE:2025-02-30'') = Inl CalendarError"
  "parseCommitMessage (str ''ABC-1 DATE:12.10.2025'') =
     Inl (FormatError (str ''date must be yyyy-mm-dd.''))"
  "map_sum id logDate (parseCommitMessage (str ''ABC-1 LOG:1h'')) = Inr None"
  "map_sum id logDate (parseCommitMessage (str ''ABC-7'')) = Inr None"
  by code_simp+

text \<open>
  C7. Without a LOG token a \<open>DATE\<close> token goes through the two checks of a date: a value
  that is not of the form yyyy-mm-dd is a format error, one that is of the form but not a
  day of the calendar is the calendar error (as is a year below 100, which \<open>Date.UTC\<close> reads
  as a year of the twentieth century), and otherwise the parse succeeds with the value as
  \<open>logDate\<close> and null hours. With no \<open>DATE\<close> token and no date after \<open>@\<close> in the LOG value,
  \<open>logDate\<close> is null.
\<close>

theorem date_without_log:
  assumes "reaches_tokens m"
  shows "(getToken (sanitizeFirstLine m) (str ''LOG'') = None \<longrightarrow>
            (case getToken (sanitizeFirstLine m) (str ''DATE'') of
               None \<Rightarrow> \<exists>r. parseCommitMessage m = Inr r \<and> logHours r = None \<and> logDate r = None
             | Some d \<Rightarrow>
                 if re_date d = None
                 then parseCommitMessage m = Inl (FormatError (str ''date must be yyyy-mm-dd.''))
                 else if \<not> real_date d \<or> year_of d < 100
                 then parseCommitMessage m = Inl CalendarError
                 else \<exists>r. parseCommitMessage m = Inr r \<and> logHours r = None \<and> logDate r = Some d)) \<and>
         (getToken (sanitizeFirstLine m) (str ''DATE'') = None \<and>
          (case getToken (sanitizeFirstLine m) (str ''LOG'') of
             None \<Rightarrow> True
           | Some raw \<Rightarrow> \<not> truthy (datePart raw)) \<longrightarrow>
            (case parseCommitMessage m of Inl e \<Rightarrow> True | Inr r \<Rightarrow> logDate r = None)) \<and>
         map_sum id (\<lambda>r. (logHours r, logDate r)) (parseCommitMessage (str ''ABC-1 DATE:2025-10-12'')) =
           Inr (None, Some (str ''2025-10-12'')) \<and>
         parseCommitMessage (str ''ABC-1 DATE:2025-02-30'') = Inl CalendarError \<and>
         parseCommitMessage (str ''ABC-1 DATE:12.10.2025'') =
           Inl (FormatError (str ''date must be yyyy-mm-dd.'')) \<and>
         map_sum id logDate (parseCommitMessage (str ''ABC-1 LOG:1h'')) = Inr None \<and>
         map_sum id logDate (parseCommitMessage (str ''ABC-7'')) = Inr None"
proof -
  let ?log = "getToken (sanitizeFirstLine m) (str ''LOG'')"
  let ?date = "getToken (sanitizeFirstLine m) (str ''DATE'')"
  have 1: "?log = None \<longrightarrow>
            (case ?date of
               None \<Rightarrow> \<exists>r. parseCommitMessage m = Inr r \<and> logHours r = None \<and> logDate r = None
             | Some d \<Rightarrow>
                 if re_date d = None
                 then parseCommitMessage m = Inl (FormatError (str ''date must be yyyy-mm-dd.''))
                 else if \<not> real_date d \<or> year_of d < 100
                 then parseCommitMessage m = Inl CalendarError
                 else \<exists>r. parseCommitMessage m = Inr r \<and> logHours r = None \<and> logDate r = Some d)"
  proof
    assume l: "?log = None"
    show "case ?date of
               None \<Rightarrow> \<exists>r. parseCommitMessage m = Inr r \<and> logHours r = None \<and> logDate r = None
             | Some d \<Rightarrow>
                 if re_date d = None
                 then parseCommitMessage m = Inl (FormatError (str ''date must be yyyy-mm-dd.''))
                 else if \<not> real_date d \<or> year_of d < 100
                 then parseCommitMessage m = Inl CalendarError
                 else \<exists>r. parseCommitMessage m = Inr r \<and> logHours r = None \<and> logDate r = Some d"
    proof (cases ?date)
      case None
      then have "parseLog ?log ?date = Inr (None, None)" by (simp add: l parseLog_no_log)
      from parse_success [OF assms this] None show ?thesis by simp
    next
      case (Some d)
      from getToken_trimmed [OF Some] have ne: "d \<noteq> []" by simp
      have pl: "parseLog ?log ?date =
          (case checkDate d of Inl e \<Rightarrow> Inl e | Inr d' \<Rightarrow> Inr (None, Some d'))"
        using ne by (simp add: l Some parseLog_no_log)
      show ?thesis
      proof (cases "checkDate d")
        case (Inl e)
        with pl have "parseCommitMessage m = Inl e" by (intro parse_error [OF assms]) simp
        with Inl Some show ?thesis by (auto simp: checkDate_cases split: if_splits)
      next
        case (Inr d')
        with pl have "parseLog ?log ?date = Inr (None, Some d')" by simp
        from parse_success [OF assms this] Inr Some show ?thesis
          by (auto simp: checkDate_cases split: if_splits)
      qed
    qed
  qed
  have 2: "?date = None \<and> (case ?log of None \<Rightarrow> True | Some raw \<Rightarrow> \<not> truthy (datePart raw)) \<longrightarrow>
            (case parseCommitMessage m of Inl e \<Rightarrow> True | Inr r \<Rightarrow> logDate r = None)"
  proof (intro impI, elim conjE)
    assume d: "?date = None" and l: "case ?log of None \<Rightarrow> True | Some raw \<Rightarrow> \<not> truthy (datePart raw)"
    show "case parseCommitMessage m of Inl e \<Rightarrow> True | Inr r \<Rightarrow> logDate r = None"
    proof (cases "parseCommitMessage m")
      case (Inl e)
      then show ?thesis by simp
    next
      case (Inr r)
      from parse_fields [OF Inr] have pl: "parseLog ?log ?date = Inr (logHours r, logDate r)"
        by simp
      have "logDate r = None"
      proof (cases ?log)
        case None
        with pl d show ?thesis by (simp add: parseLog_no_log)
      next
        case (Some raw)
        with l have "\<not> truthy (datePart raw)" by simp
        from parseLog_no_date [OF this] pl Some d show ?thesis by simp
      qed
      with Inr show ?thesis by simp
    qed
  qed
  from 1 2 date_only_examples show ?thesis by blast
qed

theorem date_without_log_witness:
  "reaches_tokens (str ''ABC-1 DATE:2025-10-12'') \<and>
   getToken (sanitizeFirstLine (str ''ABC-1 DATE:2025-10-12'')) (str ''LOG'') = None \<and>
   getToken (sanitizeFirstLine (str ''ABC-1 DATE:2025-10-12'')) (str ''DATE'') = Some (str ''2025-10-12'') \<and>
   re_date (str ''2025-10-12'') \<noteq> None \<and> real_date (str ''2025-10-12'') \<and>
   \<not> year_of (str ''2025-10-12'') < 100 \<and>
   (\<exists>r. parseCommitMessage (str ''ABC-1 DATE:2025-10-12'') = Inr r \<and> logHours r = None \<and>
        logDate r = Some (str ''2025-10-12''))"
proof -
  have h: "reaches_tokens (str ''ABC-1 DATE:2025-10-12'')" by code_simp
  have g: "getToken (sanitizeFirstLine (str ''ABC-1 DATE:2025-10-12'')) (str ''LOG'') = None"
    "getToken (sanitizeFirstLine (str ''ABC-1 DATE:2025-10-12'')) (str ''DATE'') = Some (str ''2025-10-12'')"
    "re_date (str ''2025-10-12'') \<noteq> None" "real_date (str ''2025-10-12'')"
    "\<not> year_of (str ''2025-10-12'') < 100"
    by code_simp+
  from date_without_log [OF h, THEN conjunct1] g
  have "\<exists>r. parseCommitMessage (str ''ABC-1 DATE:2025-10-12'') = Inr r \<and> logHours r = None \<and>
        logDate r = Some (str ''2025-10-12'')"
    by simp
  with h g show ?thesis by simp
qed

lemma inline_date_examples:
  "map_sum id (\<lambda>r. (logHours r, logDate r))
     (parseCommitMessage (str ''ABC-1 LOG:2h@2025-10-13 DATE:garbage'')) =
     Inr (Some (Finite 2), Some (str ''2025-10-13''))"
  "map_sum id (\<lambda>r. (logHours r, logDate r))
     (parseCommitMessage (str ''ABC-1 DATE:2025-02-30 LOG:2h@2025-10-13'')) =
     Inr (Some (Finite 2), Some (str ''2025-10-13''))"
  "parseCommitMessage (str ''ABC-1 LOG:2h DATE:garbage'') =
     Inl (FormatError (str ''date must be yyyy-mm-dd.''))"
  by code_simp+

text \<open>
  C10. When the LOG value has a date after \<open>@\<close> that passes both checks (and its time part
  is accepted), the parse succeeds with that date as \<open>logDate\<close> whatever the line holds as
  \<open>DATE\<close> token: the token is not looked at, so a \<open>DATE\<close> value of the wrong form or off the
  calendar raises nothing. Without the date after \<open>@\<close> the same \<open>DATE\<close> value is an error.
\<close>

theorem inline_date_wins:
  assumes "reaches_tokens m"
    and "getToken (sanitizeFirstLine m) (str ''LOG'') = Some raw"
    and "logTime (timePart raw) = Inr h"
    and "datePart raw = Some d"
    and "re_date d \<noteq> None"
    and "isValidISODate d"
  shows "(\<exists>r. parseCommitMessage m = Inr r \<and> logHours r = Some h \<and> logDate r = Some d) \<and>
         map_sum id (\<lambda>r. (logHours r, logDate r))
           (parseCommitMessage (str ''ABC-1 LOG:2h@2025-10-13 DATE:garbage'')) =
           Inr (Some (Finite 2), Some (str ''2025-10-13'')) \<and>
         map_sum id (\<lambda>r. (logHours r, logDate r))
           (parseCommitMessage (str ''ABC-1 DATE:2025-02-30 LOG:2h@2025-10-13'')) =
           Inr (Some (Finite 2), Some (str ''2025-10-13'')) \<and>
         parseCommitMessage (str ''ABC-1 LOG:2h DATE:garbage'') =
           Inl (FormatError (str ''date must be yyyy-mm-dd.''))"
proof -
  from getToken_trimmed [OF assms(2)] have raw: "raw \<noteq> []" by simp
  from assms(5) have d: "d \<noteq> []" by (rule re_date_nonempty)
  have "checkDate d = Inr d" using assms(5,6) by (auto simp: checkDate_def)
  then have "parseLog (getToken (sanitizeFirstLine m) (str ''LOG''))
      (getToken (sanitizeFirstLine m) (str ''DATE'')) = Inr (Some h, Some d)"
    by (simp add: assms(2) parseLog_inline_date [OF raw assms(3,4) d])
  from parse_success [OF assms(1) this] inline_date_examples show ?thesis by simp
qed

theorem inline_date_wins_witness:
  "reaches_tokens (str ''ABC-1 LOG:2h@2025-10-13 DATE:garbage'') \<and>
   getToken (sanitizeFirstLine (str ''ABC-1 LOG:2h@2025-10-13 DATE:garbage'')) (str ''LOG'') =
     Some (str ''2h@2025-10-13'') \<and>
   getToken (sanitizeFirstLine (str ''ABC-1 LOG:2h@2025-10-13 DATE:garbage'')) (str ''DATE'') =
     Some (str ''garbage'') \<and>
   logTime (timePart (str ''2h@2025-10-13'')) = Inr (Finite 2) \<and>
   datePart (str ''2h@2025-10-13'') = Some (str ''2025-10-13'') \<and>
   re_date (str ''2025-10-13'') \<noteq> None \<and> isValidISODate (str ''2025-10-13'') \<and>
   re_date (str ''garbage'') = None \<and>
   (\<exists>r. parseCommitMessage (str ''ABC-1 LOG:2h@2025-10-13 DATE:garbage'') = Inr r \<and>
        logHours r = Some (Finite 2) \<and> logDate r = Some (str ''2025-10-13''))"
proof -
  have h: "reaches_tokens (str ''ABC-1 LOG:2h@2025-10-13 DATE:garbage'')"
    "getToken (sanitizeFirstLine (str ''ABC-1 LOG:2h@2025-10-13 DATE:garbage'')) (str ''LOG'') =
       Some (str ''2h@2025-10-13'')"
    "logTime (timePart (str ''2h@2025-10-13'')) = Inr (Finite 2)"
    "datePart (str ''2h@2025-10-13'') = Some (str ''2025-10-13'')"
    "re_date (str ''2025-10-13'') \<noteq> None" "isValidISODate (str ''2025-10-13'')"
    by code_simp+
  have g: "getToken (sanitizeFirstLine (str ''ABC-1 LOG:2h@2025-10-13 DATE:garbage'')) (str ''DATE'') =
       Some (str ''garbage'')" "re_date (str ''garbage'') = None"
    by code_simp+
  from inline_date_wins [OF h, THEN conjunct1] h g show ?thesis by simp
qed

lemma inline_date_errors:
  "parseCommitMessage (str ''ABC-1 LOG:1h@2025-02-30'') = Inl CalendarError"
  "parseCommitMessage (str ''ABC-1 LOG:1h@2025/01/01'') =
     Inl (FormatError (str ''date must be yyyy-mm-dd.''))"
  by code_simp+

text \<open>
  C3, as the code has it. When the time part of the LOG value is accepted and the text
  after the first \<open>@\<close>, trimmed, is not empty, that text must have the form yyyy-mm-dd, or
  the parse fails with the format error "date must be yyyy-mm-dd."; a text of that form
  that is not a day of the calendar fails with the calendar error instead.
  \<open>LOG:1h@2025-02-30\<close> gives the calendar error and \<open>LOG:1h@2025/01/01\<close> the format
  error. (A LOG value that ends with the \<open>@\<close> is read as a value without a date.)
\<close>

theorem inline_date_checked:
  assumes "reaches_tokens m"
    and "getToken (sanitizeFirstLine m) (str ''LOG'') = Some raw"
    and "logTime (timePart raw) = Inr h"
    and "datePart raw = Some d"
    and "d \<noteq> []"
  shows "(re_date d = None \<longrightarrow>
            parseCommitMessage m = Inl (FormatError (str ''date must be yyyy-mm-dd.''))) \<and>
         (re_date d \<noteq> None \<and> \<not> real_date d \<longrightarrow> parseCommitMessage m = Inl CalendarError) \<and>
         parseCommitMessage (str ''ABC-1 LOG:1h@2025-02-30'') = Inl CalendarError \<and>
         parseCommitMessage (str ''ABC-1 LOG:1h@2025/01/01'') =
           Inl (FormatError (str ''date must be yyyy-mm-dd.''))"
proof -
  from getToken_trimmed [OF assms(2)] have raw: "raw \<noteq> []" by simp
  have pl: "parseLog (getToken (sanitizeFirstLine m) (str ''LOG''))
      (getToken (sanitizeFirstLine m) (str ''DATE'')) =
      (case checkDate d of Inl e \<Rightarrow> Inl e | Inr d' \<Rightarrow> Inr (Some h, Some d'))"
    by (simp add: assms(2) parseLog_inline_date [OF raw assms(3,4,5)])
  have 1: "re_date d = None \<longrightarrow>
            parseCommitMessage m = Inl (FormatError (str ''date must be yyyy-mm-dd.''))"
    using pl by (auto intro!: parse_error [OF assms(1)] simp: checkDate_cases)
  have 2: "re_date d \<noteq> None \<and> \<not> real_date d \<longrightarrow> parseCommitMessage m = Inl CalendarError"
    using pl by (auto intro!: parse_error [OF assms(1)] simp: checkDate_cases)
  from 1 2 inline_date_errors show ?thesis by blast
qed

theorem inline_date_checked_witness:
  "reaches_tokens (str ''ABC-1 LOG:1h@2025-02-30'') \<and>
   getToken (sanitizeFirstLine (str ''ABC-1 LOG:1h@2025-02-30'')) (str ''LOG'') =
     Some (str ''1h@2025-02-30'') \<and>
   logTime (timePart (str ''1h@2025-02-30'')) = Inr (Finite 1) \<and>
   datePart (str ''1h@2025-02-30'') = Some (str ''2025-02-30'') \<and>
   str ''2025-02-30'' \<noteq> [] \<and> re_date (str ''2025-02-30'') \<noteq> None \<and>
   \<not> real_date (str ''2025-02-30'') \<and>
   parseCommitMessage (str ''ABC-1 LOG:1h@2025-02-30'') = Inl CalendarError"
proof -
  have h: "reaches_tokens (str ''ABC-1 LOG:1h@2025-02-30'')"
    "getToken (sanitizeFirstLine (str ''ABC-1 LOG:1h@2025-02-30'')) (str ''LOG'') =
       Some (str ''1h@2025-02-30'')"
    "logTime (timePart (str ''1h@2025-02-30'')) = Inr (Finite 1)"
    "datePart (str ''1h@2025-02-30'') = Some (str ''2025-02-30'')"
    "str ''2025-02-30'' \<noteq> []"
    by code_simp+
  have g: "re_date (str ''2025-02-30'') \<noteq> None" "\<not> real_date (str ''2025-02-30'')"
    by code_simp+
  from inline_date_checked [OF h, THEN conjunct2, THEN conjunct1] g
  have "parseCommitMessage (str ''ABC-1 LOG:1h@2025-02-30'') = Inl CalendarError" by simp
  with h g show ?thesis by simp
qed

text \<open>
  The claim C3 as it is written fails on a LOG value that ends with its \<open>@\<close>: the text
  after the \<open>@\<close> is empty, so it is not of the form yyyy-mm-dd, and yet the parse
  succeeds, with a null \<open>logDate\<close>.
\<close>

theorem inline_date_empty_counterexample:
  "getToken (sanitizeFirstLine (str ''ABC-1 LOG:1h@'')) (str ''LOG'') = Some (str ''1h@'') \<and>
   datePart (str ''1h@'') = Some [] \<and> re_date [] = None \<and>
   parseCommitMessage (str ''ABC-1 LOG:1h@'') =
     Inr \<lparr>issue = str ''ABC-1'', issueKey = str ''ABC-1'', status = None, logHours = Some (Finite 1),
          logDate = None, comment = None, phase = None, ready = None,
          firstLine = str ''ABC-1 LOG:1h@''\<rparr>"
  by code_simp

section \<open>A token without a value\<close>

text \<open>
  C2 does not hold of the code. In \<open>ABC-1 STATUS: LOG:1h\<close> nothing but a space stands
  between \<open>STATUS:\<close> and the next token. The greedy \<^verbatim>\<open>\s*\<close> after the colon takes that
  space, the group starts at the \<open>L\<close> of \<open>LOG:1h\<close>, and as no boundary follows it runs to
  the end of the line: the status is \<open>LOG:1h\<close>, not null (and the LOG token is read as
  well, giving 1 hour).
\<close>

theorem empty_status_takes_next_token:
  "parseCommitMessage (str ''ABC-1 STATUS: LOG:1h'') =
     Inr \<lparr>issue = str ''ABC-1'', issueKey = str ''ABC-1'', status = Some (str ''LOG:1h''),
          logHours = Some (Finite 1), logDate = None, comment = None, phase = None, ready = None,
          firstLine = str ''ABC-1 STATUS: LOG:1h''\<rparr>"
  by code_simp

section \<open>One token of each name\<close>


lemma onlyOne_cases:
  "onlyOne line n =
     (if 1 < length (match_all n True line)
      then Inl (FormatError (str ''only one '' @ n @ str '' token is allowed.''))
      else Inr ())"
  by (simp add: onlyOne_def failFormat_def Let_def)







section \<open>The order of the tokens\<close>

text \<open>A line of tokens: an issue key, then each token after one space.\<close>

definition token_text :: "jsstring \<times> jsstring \<Rightarrow> jsstring" where
  "token_text t = 32 # fst t @ str '':'' @ snd t"

definition tokens_text :: "(jsstring \<times> jsstring) list \<Rightarrow> jsstring" where
  "tokens_text toks = concat (map token_text toks)"

definition tokens_line :: "jsstring \<Rightarrow> (jsstring \<times> jsstring) list \<Rightarrow> jsstring" where
  "tokens_line key toks = key @ tokens_text toks"

definition well_formed :: "(jsstring \<times> jsstring) list \<Rightarrow> bool" where
  "well_formed toks \<longleftrightarrow>
     distinct (map fst toks) \<and> list_all (\<lambda>t. fst t \<in> set TOKEN_NAMES \<and> plain (snd t)) toks"

definition key_char :: "int \<Rightarrow> bool" where
  "key_char c \<longleftrightarrow> is_upper c \<or> is_digit c \<or> c = 45"

lemma key_char_plain: "key_char c \<Longrightarrow> \<not> is_space c \<and> c \<noteq> 58 \<and> c \<noteq> 10 \<and> c \<noteq> 65279 \<and> c \<noteq> 8203 \<and> c \<noteq> 8204 \<and> c \<noteq> 8205"
  by (auto simp: key_char_def is_upper_def is_digit_def is_space_def)

lemma keyMatch_shape:
  assumes "keyMatch key = Some key"
  shows "\<exists>c body ds. key = c # body @ 45 # ds \<and> is_upper c \<and>
           list_all (\<lambda>x. is_upper x \<or> is_digit x) body \<and> 1 \<le> length body \<and> length body \<le> 9 \<and>
           ds \<noteq> [] \<and> list_all is_digit ds"
proof -
  from assms obtain c r where key: "key = c # r" by (cases key) (auto simp: keyMatch_def)
  define body where "body = takeWhile (\<lambda>x. is_upper x \<or> is_digit x) r"
  define r1 where "r1 = dropWhile (\<lambda>x. is_upper x \<or> is_digit x) r"
  have k1: "keyMatch key =
      (if \<not> is_upper c \<or> length body < 1 \<or> 9 < length body then None
       else (case r1 of
               [] \<Rightarrow> None
             | h # r2 \<Rightarrow>
                 (let ds = takeWhile is_digit r2; r3 = dropWhile is_digit r2
                  in if h \<noteq> 45 \<or> ds = [] then None
                     else (case r3 of
                             [] \<Rightarrow> Some (c # body @ h # ds)
                           | w # _ \<Rightarrow> if is_word w then None else Some (c # body @ h # ds)))))"
    unfolding body_def r1_def keyMatch_def key Let_def by simp
  have c: "is_upper c" and b: "1 \<le> length body" "length body \<le> 9"
    using assms unfolding k1 by (auto split: if_splits simp: Suc_le_eq)
  with assms k1 obtain h r2 where r1: "r1 = h # r2"
    by (cases r1) (simp_all split: if_splits)
  define ds where "ds = takeWhile is_digit r2"
  define r3 where "r3 = dropWhile is_digit r2"
  have k2: "keyMatch key =
      (if h \<noteq> 45 \<or> ds = [] then None
       else (case r3 of
               [] \<Rightarrow> Some (c # body @ h # ds)
             | w # _ \<Rightarrow> if is_word w then None else Some (c # body @ h # ds)))"
  proof -
    have cond: "(\<not> is_upper c \<or> length body < 1 \<or> 9 < length body) = False"
      using c b by auto
    show ?thesis
      unfolding k1 r1 cond ds_def r3_def Let_def by (simp only: if_False list.case)
  qed
  have h: "h = 45" and ds: "ds \<noteq> []"
    using assms unfolding k2 by (simp_all split: if_splits)
  have "key = c # body @ 45 # ds"
    using assms h ds unfolding k2 by (cases r3) (simp_all split: if_splits)
  moreover have "list_all (\<lambda>x. is_upper x \<or> is_digit x) body"
    by (auto simp: body_def list_all_iff dest: set_takeWhileD)
  moreover have "list_all is_digit ds"
    by (auto simp: ds_def list_all_iff dest: set_takeWhileD)
  ultimately show ?thesis using c b ds by blast
qed

lemma keyMatch_extend:
  assumes "keyMatch key = Some key" and "t = [] \<or> \<not> is_word (hd t)"
  shows "keyMatch (key @ t) = Some key"
proof -
  from keyMatch_shape [OF assms(1)] obtain c body ds where
    key: "key = c # body @ 45 # ds" and c: "is_upper c"
    and body: "list_all (\<lambda>x. is_upper x \<or> is_digit x) body" "1 \<le> length body" "length body \<le> 9"
    and ds: "ds \<noteq> []" "list_all is_digit ds"
    by blast
  have n45: "\<not> (is_upper 45 \<or> is_digit 45)" by (simp add: is_upper_def is_digit_def)
  have tb: "takeWhile (\<lambda>x. is_upper x \<or> is_digit x) (body @ 45 # ds @ t) = body"
    "dropWhile (\<lambda>x. is_upper x \<or> is_digit x) (body @ 45 # ds @ t) = 45 # ds @ t"
    using body(1) n45 by (simp_all add: list_all_iff takeWhile_append2 dropWhile_append2)
  have nd: "t = [] \<or> \<not> is_digit (hd t)" using assms(2) by (auto simp: is_word_def)
  have td: "takeWhile is_digit (ds @ t) = ds" "dropWhile is_digit (ds @ t) = t"
    using ds(2) nd by (cases t; simp add: list_all_iff takeWhile_append2 dropWhile_append2)+
  have tb0: "takeWhile (\<lambda>x. is_upper x \<or> is_digit x) (body @ 45 # ds) = body"
    "dropWhile (\<lambda>x. is_upper x \<or> is_digit x) (body @ 45 # ds) = 45 # ds"
    using body(1) n45 by (simp_all add: list_all_iff takeWhile_append2 dropWhile_append2)
  have td0: "takeWhile is_digit ds = ds" "dropWhile is_digit ds = []"
    using ds(2) by (simp_all add: list_all_iff)
  have "keyMatch (c # body @ 45 # ds @ t) = Some (c # body @ 45 # ds)"
    using c body ds assms(2)
    by (auto simp: keyMatch_def tb td tb0 td0 Let_def split: list.splits)
  then show ?thesis by (simp add: key)
qed

lemma key_chars:
  assumes "keyMatch key = Some key"
  shows "key \<noteq> [] \<and> list_all key_char key \<and> is_digit (last key)"
proof -
  from keyMatch_shape [OF assms] obtain c body ds where
    key: "key = c # body @ 45 # ds" and c: "is_upper c"
    and body: "list_all (\<lambda>x. is_upper x \<or> is_digit x) body"
    and ds: "ds \<noteq> []" "list_all is_digit ds"
    by blast
  have "last key = last ds" using ds(1) by (simp add: key)
  moreover have "last ds \<in> set ds" using ds(1) by simp
  ultimately have "is_digit (last key)" using ds(2) by (simp add: list_all_iff)
  then show ?thesis using c body ds by (auto simp: key key_char_def list_all_iff)
qed


lemma tokens_text_simps:
  "tokens_text [] = []"
  "tokens_text ((n, v) # ts) = 32 # n @ str '':'' @ v @ tokens_text ts"
  "tokens_text (ts @ us) = tokens_text ts @ tokens_text us"
  by (simp_all add: tokens_text_def token_text_def)

lemma well_formed_simps:
  "well_formed []"
  "well_formed ((n, v) # ts) =
     (n \<notin> fst ` set ts \<and> n \<in> set TOKEN_NAMES \<and> plain v \<and> well_formed ts)"
  by (auto simp: well_formed_def)

lemma well_formed_append:
  "well_formed (ts @ us) \<Longrightarrow> well_formed ts \<and> well_formed us"
  by (auto simp: well_formed_def)

lemma space_32: "is_space 32"
  by (simp add: is_space_def)

lemma tokens_text_head: "tokens_text ts = [] \<or> is_space (hd (tokens_text ts))"
  by (cases ts) (auto simp: tokens_text_simps space_32)

lemma boundary_tokens_text: "well_formed ts \<Longrightarrow> boundary (tokens_text ts)"
proof (cases ts)
  case Nil
  then show ?thesis by (simp add: tokens_text_simps)
next
  case (Cons t ts')
  assume "well_formed ts"
  with Cons have "fst t \<in> set TOKEN_NAMES" by (cases t) (simp add: well_formed_simps)
  moreover have "prefix (fst t @ str '':'') (fst t @ str '':'' @ snd t @ tokens_text ts')"
    by simp
  ultimately have "list_ex (\<lambda>n. prefix (n @ str '':'') (fst t @ str '':'' @ snd t @ tokens_text ts'))
      TOKEN_NAMES"
    unfolding list_ex_iff by blast
  then show ?thesis
    by (cases t) (simp add: Cons tokens_text_simps space_32)
qed

lemma name_prefix_eq:
  "58 \<notin> set n \<Longrightarrow> 58 \<notin> set m \<Longrightarrow> prefix (n @ [58]) (m @ 58 # x) \<Longrightarrow> n = m"
proof (induction n arbitrary: m)
  case Nil
  then show ?case by (cases m) auto
next
  case (Cons b n)
  then show ?case by (cases m) auto
qed

lemma token_name_no_colon: "n \<in> set TOKEN_NAMES \<Longrightarrow> 58 \<notin> set n"
  using token_name_upper [of n] upper_not_space by (auto simp: list_all_iff)

lemma sas_nospace:
  "\<forall>c \<in> set a. \<not> is_space c \<Longrightarrow> start_after_space n (a @ b) = start_after_space n b"
  by (induction a) auto

lemma sas_value:
  assumes "n \<in> set TOKEN_NAMES" and "b = [] \<or> is_space (hd b)"
  shows "no_boundary v \<Longrightarrow> start_after_space n (v @ b) = start_after_space n b"
proof (induction v)
  case Nil
  then show ?case by simp
next
  case (Cons c v)
  have "\<not> (is_space c \<and> prefix (n @ str '':'') (v @ b))"
  proof
    assume a: "is_space c \<and> prefix (n @ str '':'') (v @ b)"
    with prefix_cross [OF token_name_no_space [OF assms(1)] assms(2), of v]
    have "prefix (n @ str '':'') v" by simp
    with a assms(1) have "boundary (c # v)" by (auto simp: list_ex_iff)
    with Cons.prems show False by simp
  qed
  moreover have "start_after_space n (v @ b) = start_after_space n b"
    using Cons by simp
  ultimately show ?case by auto
qed

lemma sas_tokens_text:
  assumes "n \<in> set TOKEN_NAMES"
  shows "well_formed ts \<Longrightarrow> n \<notin> fst ` set ts \<Longrightarrow> \<not> start_after_space n (tokens_text ts)"
proof (induction ts)
  case Nil
  then show ?case by (simp add: tokens_text_simps)
next
  case (Cons t ts)
  obtain m v where t: "t = (m, v)" by (cases t)
  from Cons.prems have m: "m \<in> set TOKEN_NAMES" "m \<noteq> n" and v: "plain v"
    and ts: "well_formed ts" "n \<notin> fst ` set ts"
    by (auto simp: t well_formed_simps)
  have rest: "\<not> start_after_space n (tokens_text ts)" using Cons.IH ts by simp
  have "\<not> prefix (n @ str '':'') (m @ str '':'' @ v @ tokens_text ts)"
    using name_prefix_eq [of n m "v @ tokens_text ts"] m
      token_name_no_colon [OF assms] token_name_no_colon [OF m(1)]
    by (auto simp: str_def)
  moreover have "start_after_space n ((m @ str '':'') @ v @ tokens_text ts) =
      start_after_space n (v @ tokens_text ts)"
    using token_name_no_space [OF m(1)] by (rule sas_nospace)
  moreover have "start_after_space n (v @ tokens_text ts) = start_after_space n (tokens_text ts)"
    using v by (intro sas_value [OF assms tokens_text_head]) (simp add: plain_def)
  ultimately show ?case using rest by (simp add: t tokens_text_simps)
qed

lemma no_token_start_line:
  assumes "n \<in> set TOKEN_NAMES" and "keyMatch key = Some key"
    and "well_formed ts" and "n \<notin> fst ` set ts"
  shows "\<not> token_start n (key @ tokens_text ts)"
proof -
  from key_chars [OF assms(2)] have kc: "\<forall>c \<in> set key. key_char c"
    by (simp add: list_all_iff)
  then have ns: "\<forall>c \<in> set key. \<not> is_space c" using key_char_plain by blast
  have "\<not> prefix (n @ str '':'') (key @ tokens_text ts)"
  proof
    assume "prefix (n @ str '':'') (key @ tokens_text ts)"
    from prefix_cross [OF token_name_no_space [OF assms(1)] tokens_text_head this]
    have "set (n @ str '':'') \<subseteq> set key" by (auto simp: prefix_def)
    then have "58 \<in> set key" by (auto simp: str_def)
    with kc key_char_plain show False by blast
  qed
  moreover have "\<not> start_after_space n (key @ tokens_text ts)"
    using sas_nospace [OF ns] sas_tokens_text [OF assms(1,3,4)] by simp
  ultimately show ?thesis by (simp add: token_start_def)
qed


lemma well_formed_split:
  assumes "well_formed (t1 @ (n, v) # t2)"
  shows "n \<in> set TOKEN_NAMES \<and> plain v \<and> well_formed t1 \<and> well_formed t2 \<and>
         n \<notin> fst ` set t1 \<and> n \<notin> fst ` set t2"
  using assms by (auto simp: well_formed_def)

lemma re_exec_line_found:
  assumes "keyMatch key = Some key" and "well_formed (t1 @ (n, v) # t2)"
  shows "re_exec n True (tokens_line key (t1 @ (n, v) # t2)) =
           Some (length (key @ tokens_text t1), length n + length v + 2, v)"
proof -
  note w = well_formed_split [OF assms(2)]
  have l: "tokens_line key (t1 @ (n, v) # t2) =
      (key @ tokens_text t1) @ 32 # n @ str '':'' @ [] @ v @ [] @ tokens_text t2"
    by (simp add: tokens_line_def tokens_text_simps)
  have "\<not> token_start n (key @ tokens_text t1)"
    using w by (intro no_token_start_line [OF _ assms(1)]) simp_all
  from getToken_found [OF _ space_32 _ _ _ _ this, of "[]" "[]" v "tokens_text t2"] w
  show ?thesis
    unfolding l by (simp add: boundary_tokens_text)
qed

lemma re_exec_line_absent:
  assumes "keyMatch key = Some key" and "well_formed ts"
    and "n \<in> set TOKEN_NAMES" and "n \<notin> fst ` set ts"
  shows "re_exec n True (tokens_line key ts) = None"
proof -
  from no_token_start_line [OF assms(3,1,2,4)]
  have "\<not> prefix (n @ str '':'') (tokens_line key ts)"
    and s: "\<not> start_after_space n (tokens_line key ts)"
    by (simp_all add: token_start_def tokens_line_def)
  then have "re_exec n True (tokens_line key ts) = re_exec n False (tokens_line key ts)"
    by (intro re_exec_at_start)
  with re_exec_none [OF s] show ?thesis by simp
qed

lemma getToken_line:
  assumes "keyMatch key = Some key" and "well_formed ts" and "n \<in> set TOKEN_NAMES"
  shows "getToken (tokens_line key ts) n = map_of ts n"
proof (cases "map_of ts n")
  case None
  then have "n \<notin> fst ` set ts" by (simp add: map_of_eq_None_iff)
  from re_exec_line_absent [OF assms(1,2,3) this] None show ?thesis
    by (simp add: getToken_def)
next
  case (Some v)
  then have "(n, v) \<in> set ts" by (rule map_of_SomeD)
  then obtain t1 t2 where ts: "ts = t1 @ (n, v) # t2" by (auto dest: split_list)
  from well_formed_split [OF assms(2) [unfolded ts]] have "plain v" by simp
  then have "trim v = v" by (rule plain_trim)
  with re_exec_line_found [OF assms(1) assms(2) [unfolded ts]] Some show ?thesis
    by (simp add: getToken_def ts)
qed

lemma match_all_line:
  assumes "keyMatch key = Some key" and "well_formed ts" and "n \<in> set TOKEN_NAMES"
  shows "length (match_all n True (tokens_line key ts)) \<le> 1"
proof (cases "n \<in> fst ` set ts")
  case False
  from re_exec_line_absent [OF assms False] show ?thesis
    by (simp add: match_all.simps [of n True])
next
  case True
  then obtain v where "(n, v) \<in> set ts" by auto
  then obtain t1 t2 where ts: "ts = t1 @ (n, v) # t2" by (auto dest: split_list)
  note w = well_formed_split [OF assms(2) [unfolded ts]]
  have d: "drop (length (key @ tokens_text t1) + (length n + length v + 2))
      (tokens_line key (t1 @ (n, v) # t2)) = tokens_text t2"
    by (simp add: tokens_line_def tokens_text_simps str_def)
  have "\<not> start_after_space n (tokens_text t2)"
    using w by (intro sas_tokens_text) simp_all
  then have "re_exec n False (tokens_text t2) = None" by (rule re_exec_none)
  then have "match_all n False (tokens_text t2) = []"
    by (simp add: match_all.simps [of n False])
  with re_exec_line_found [OF assms(1) assms(2) [unfolded ts]] d show ?thesis
    by (simp add: match_all.simps [of n True] ts)
qed

lemma forEach_all: "(\<And>x. x \<in> set xs \<Longrightarrow> f x = Inr ()) \<Longrightarrow> forEach f xs = Inr ()"
  by (induction xs) simp_all

lemma first_line_id: "10 \<notin> set s \<Longrightarrow> first_line s = s"
  by (induction s) (auto split: list.splits)

lemma trim_id:
  assumes "s \<noteq> []" "\<not> is_space (hd s)" "\<not> is_space (last s)"
  shows "trimEnd s = s \<and> trim s = s"
proof -
  from assms obtain c w where s: "s = c # w" by (cases s) auto
  have "trimStart s = s" using assms by (simp add: s trimStart_def)
  moreover have "dropWhile is_space (rev s) = rev s"
    using assms by (cases "rev s") (auto simp: last_rev [symmetric] hd_rev simp del: last_rev)
  ultimately show ?thesis by (simp add: trim_def trimEnd_def)
qed

lemma tokens_line_ends:
  assumes "keyMatch key = Some key" and "well_formed ts"
  shows "tokens_line key ts \<noteq> [] \<and> key_char (hd (tokens_line key ts)) \<and>
         \<not> is_space (last (tokens_line key ts)) \<and> 10 \<notin> set (tokens_line key ts)"
proof -
  note k = key_chars [OF assms(1)]
  from k have hd: "key_char (hd key)" by (cases key) auto
  have last: "\<not> is_space (last (tokens_line key ts))"
  proof (cases ts rule: rev_cases)
    case Nil
    with k show ?thesis by (auto simp: tokens_line_def tokens_text_simps is_digit_def is_space_def)
  next
    case (snoc ts' t)
    obtain n v where t: "t = (n, v)" by (cases t)
    from assms(2) have "plain v" by (auto simp: snoc t well_formed_def)
    then show ?thesis
      by (simp add: snoc t tokens_line_def tokens_text_simps plain_def str_def)
  qed
  have "10 \<notin> set (tokens_text ts)"
    using assms(2)
  proof (induction ts)
    case Nil
    then show ?case by (simp add: tokens_text_simps)
  next
    case (Cons t ts)
    obtain n v where t: "t = (n, v)" by (cases t)
    from Cons.prems have n: "n \<in> set TOKEN_NAMES" and v: "plain v" and ts: "well_formed ts"
      by (simp_all add: t well_formed_simps)
    from token_name_upper [OF n] have "10 \<notin> set n"
      by (auto simp: list_all_iff is_upper_def)
    moreover from v have "10 \<notin> set v"
      by (auto simp: plain_def list_all_iff is_line_terminator_def)
    ultimately show ?case using Cons.IH [OF ts] by (simp add: t tokens_text_simps str_def)
  qed
  moreover have "10 \<notin> set key" using k key_char_plain by (auto simp: list_all_iff)
  ultimately show ?thesis using k hd last by (simp add: tokens_line_def)
qed

lemma sanitize_tokens_line:
  assumes "keyMatch key = Some key" and "well_formed ts"
  shows "sanitizeFirstLine (tokens_line key ts) = tokens_line key ts \<and>
         trim (tokens_line key ts) \<noteq> []"
proof -
  note e = tokens_line_ends [OF assms]
  then obtain c w where l: "tokens_line key ts = c # w" by (cases "tokens_line key ts") auto
  with e have c: "key_char c" by simp
  note p = key_char_plain [OF c]
  have t: "trimEnd (tokens_line key ts) = tokens_line key ts" "trim (tokens_line key ts) = tokens_line key ts"
    using trim_id [of "tokens_line key ts"] e p by (simp_all add: l)
  have "first_line (tokens_line key ts) = c # w" using e first_line_id l by metis
  then have "sanitizeFirstLine (tokens_line key ts) = trimEnd (c # w)"
    using p by (simp add: sanitizeFirstLine_def Let_def)
  with t l show ?thesis by simp
qed

lemma reaches_tokens_line:
  assumes "keyMatch key = Some key" and "well_formed ts"
  shows "reaches_tokens (tokens_line key ts)"
proof -
  note s = sanitize_tokens_line [OF assms]
  have "keyMatch (tokens_line key ts) = Some key"
    unfolding tokens_line_def using tokens_text_head [of ts]
    by (intro keyMatch_extend [OF assms(1)]) (auto simp: is_space_def is_word_def is_digit_def is_upper_def)
  moreover have "forEach (onlyOne (tokens_line key ts)) TOKEN_NAMES = Inr ()"
    using match_all_line [OF assms] by (intro forEach_all) (simp add: onlyOne_cases not_less)
  ultimately show ?thesis using s by (simp add: reaches_tokens_def)
qed


lemma parse_tokens_line:
  assumes "keyMatch key = Some key" and "well_formed ts"
  shows "parseCommitMessage (tokens_line key ts) =
     (case parseLog (map_of ts (str ''LOG'')) (map_of ts (str ''DATE'')) of
        Inl e \<Rightarrow> Inl e
      | Inr (h, d) \<Rightarrow>
          Inr \<lparr>issue = key, issueKey = key, status = map_of ts (str ''STATUS''),
               logHours = h, logDate = d, comment = map_of ts (str ''COMMENT''),
               phase = (case map_of ts (str ''PHASE'') of
                          Some x \<Rightarrow> Some x
                        | None \<Rightarrow> map_of ts (str ''CAT'')),
               ready = parseReady (map_of ts (str ''READY'')),
               firstLine = tokens_line key ts\<rparr>)"
proof -
  note r = reaches_tokens_line [OF assms]
  note s = sanitize_tokens_line [OF assms, THEN conjunct1]
  have names: "str ''STATUS'' \<in> set TOKEN_NAMES" "str ''LOG'' \<in> set TOKEN_NAMES"
    "str ''COMMENT'' \<in> set TOKEN_NAMES" "str ''PHASE'' \<in> set TOKEN_NAMES"
    "str ''DATE'' \<in> set TOKEN_NAMES" "str ''CAT'' \<in> set TOKEN_NAMES"
    "str ''READY'' \<in> set TOKEN_NAMES"
    by (simp_all add: TOKEN_NAMES_def)
  have k: "keyMatch (tokens_line key ts) = Some key"
    unfolding tokens_line_def using tokens_text_head [of ts]
    by (intro keyMatch_extend [OF assms(1)])
       (auto simp: is_space_def is_word_def is_digit_def is_upper_def)
  note g = names [THEN getToken_line [OF assms]]
  from parse_tokens [OF r] show ?thesis
    unfolding s k g by simp
qed

text \<open>The fields of a result apart from the line itself.\<close>

definition fields ::
  "parsed \<Rightarrow> jsstring \<times> jsstring option \<times> number option \<times> jsstring option \<times> jsstring option \<times>
     jsstring option \<times> bool option" where
  "fields r = (issue r, status r, logHours r, logDate r, comment r, phase r, ready r)"

lemma permuted_tokens:
  assumes "mset ts' = mset ts" and "well_formed ts"
  shows "well_formed ts' \<and> map_of ts' = map_of ts"
proof -
  from assms(1) have set: "set ts' = set ts" by (rule mset_eq_setD)
  have "mset (map fst ts') = mset (map fst ts)" using assms(1) by simp
  then have d: "distinct (map fst ts') = distinct (map fst ts)"
    by (rule mset_eq_imp_distinct_iff)
  with assms(2) set have w: "well_formed ts'" by (simp add: well_formed_def list_all_iff)
  moreover have "map_of ts' = map_of ts"
    using w assms(2) set by (simp add: well_formed_def map_of_inject_set)
  ultimately show ?thesis by simp
qed

lemma tokens_order:
  assumes "keyMatch key = Some key" and "well_formed ts" and "mset ts' = mset ts"
  shows "map_sum id fields (parseCommitMessage (tokens_line key ts')) =
         map_sum id fields (parseCommitMessage (tokens_line key ts))"
proof -
  note p = permuted_tokens [OF assms(3,2)]
  show ?thesis
    unfolding parse_tokens_line [OF assms(1,2)] parse_tokens_line [OF assms(1) p [THEN conjunct1]]
      p [THEN conjunct2]
    by (auto simp: fields_def split: sum.splits)
qed

lemma order_example:
  "map_sum id fields (parseCommitMessage
     (str ''PAY-101 COMMENT:Refactor LOG:2.5h@2025-10-01 STATUS:In Progress PHASE:Development'')) =
   Inr (str ''PAY-101'', Some (str ''In Progress''), Some (Finite (5 / 2)), Some (str ''2025-10-01''),
        Some (str ''Refactor''), Some (str ''Development''), None)"
  by code_simp

lemma order_example_tokens:
  "keyMatch (str ''PAY-101'') = Some (str ''PAY-101'')"
  "well_formed [(str ''COMMENT'', str ''Refactor''), (str ''LOG'', str ''2.5h@2025-10-01''),
     (str ''STATUS'', str ''In Progress''), (str ''PHASE'', str ''Development'')]"
  by code_simp+

lemma order_example_line:
  "tokens_line (str ''PAY-101'')
     [(str ''COMMENT'', str ''Refactor''), (str ''LOG'', str ''2.5h@2025-10-01''),
      (str ''STATUS'', str ''In Progress''), (str ''PHASE'', str ''Development'')] =
   str ''PAY-101 COMMENT:Refactor LOG:2.5h@2025-10-01 STATUS:In Progress PHASE:Development''"
  by (simp add: tokens_line_def tokens_text_simps str_def)

text \<open>
  C5. The order of the tokens does not matter. The line
  \<open>PAY-101 COMMENT:Refactor LOG:2.5h@2025-10-01 STATUS:In Progress PHASE:Development\<close> is the
  key \<open>PAY-101\<close> followed by four tokens, each after one space (\<open>tokens_line\<close>). For every
  permutation \<open>p\<close> of the four tokens the line with the key first and the tokens in the
  order of \<open>p\<close> parses to the same fields: the status \<open>In Progress\<close>, 2.5 hours, the date
  \<open>2025-10-01\<close>, the comment \<open>Refactor\<close> and the phase \<open>Development\<close> (with the issue
  \<open>PAY-101\<close> and no readiness flag).
\<close>

theorem token_order_independence:
  assumes "mset p =
     mset [(str ''COMMENT'', str ''Refactor''), (str ''LOG'', str ''2.5h@2025-10-01''),
           (str ''STATUS'', str ''In Progress''), (str ''PHASE'', str ''Development'')]"
  shows "map_sum id fields (parseCommitMessage (tokens_line (str ''PAY-101'') p)) =
           Inr (str ''PAY-101'', Some (str ''In Progress''), Some (Finite (5 / 2)), Some (str ''2025-10-01''),
                Some (str ''Refactor''), Some (str ''Development''), None) \<and>
         tokens_line (str ''PAY-101'')
           [(str ''COMMENT'', str ''Refactor''), (str ''LOG'', str ''2.5h@2025-10-01''),
            (str ''STATUS'', str ''In Progress''), (str ''PHASE'', str ''Development'')] =
         str ''PAY-101 COMMENT:Refactor LOG:2.5h@2025-10-01 STATUS:In Progress PHASE:Development''"
  using tokens_order [OF order_example_tokens assms] order_example
  unfolding order_example_line by (simp add: order_example_line)

theorem token_order_independence_witness:
  "mset [(str ''PHASE'', str ''Development''), (str ''STATUS'', str ''In Progress''),
         (str ''LOG'', str ''2.5h@2025-10-01''), (str ''COMMENT'', str ''Refactor'')] =
   mset [(str ''COMMENT'', str ''Refactor''), (str ''LOG'', str ''2.5h@2025-10-01''),
         (str ''STATUS'', str ''In Progress''), (str ''PHASE'', str ''Development'')] \<and>
   map_sum id fields (parseCommitMessage
     (str ''PAY-101 PHASE:Development STATUS:In Progress LOG:2.5h@2025-10-01 COMMENT:Refactor'')) =
   Inr (str ''PAY-101'', Some (str ''In Progress''), Some (Finite (5 / 2)), Some (str ''2025-10-01''),
        Some (str ''Refactor''), Some (str ''Development''), None)"
proof -
  have h: "mset [(str ''PHASE'', str ''Development''), (str ''STATUS'', str ''In Progress''),
         (str ''LOG'', str ''2.5h@2025-10-01''), (str ''COMMENT'', str ''Refactor'')] =
   mset [(str ''COMMENT'', str ''Refactor''), (str ''LOG'', str ''2.5h@2025-10-01''),
         (str ''STATUS'', str ''In Progress''), (str ''PHASE'', str ''Development'')]"
    by (simp add: add_mset_commute)
  have l: "tokens_line (str ''PAY-101'')
       [(str ''PHASE'', str ''Development''), (str ''STATUS'', str ''In Progress''),
        (str ''LOG'', str ''2.5h@2025-10-01''), (str ''COMMENT'', str ''Refactor'')] =
     str ''PAY-101 PHASE:Development STATUS:In Progress LOG:2.5h@2025-10-01 COMMENT:Refactor''"
    by (simp add: tokens_line_def tokens_text_simps str_def)
  from token_order_independence [OF h, THEN conjunct1] h show ?thesis
    unfolding l by simp
qed

end
